theory Spec2Isabelle
  imports Complex_Main "HOL-Library.Sublist" "HOL-Library.AList"
begin

section \<open>Exceptions\<close>

text \<open>
  The exception classes of \<^verbatim>\<open>atomizer.py\<close> and \<^verbatim>\<open>cldrive.py\<close>, together with the
  built-in Python exceptions that the modelled code can raise. A function that may raise
  returns \<open>error + 'a\<close>, with \<open>Inl\<close> for the exception.
\<close>

datatype error =
    VocabError
  | KeyError
  | ValueError
  | TypeError
  | IndexError
  | RuntimeError
  | CLDriveException
  | E_BAD_CODE
  | E_UGLY_CODE
  | E_BAD_DRIVER
  | E_BAD_ARGS
  | E_BAD_PROFILE
  | E_NON_TERMINATING
  | E_INPUT_INSENSITIVE
  | E_NO_OUTPUTS
  | E_NONDETERMINISTIC

section \<open>Python dictionaries\<close>

text \<open>
  A \<^verbatim>\<open>dict\<close> is the list of its items in insertion order; \<open>map_of\<close> is the lookup.
  \<open>dict ps\<close> is Python's \<^verbatim>\<open>dict(ps)\<close> on an iterable of pairs: a key seen again keeps
  its position and takes the later value.
\<close>

definition dict :: "('k \<times> 'v) list \<Rightarrow> ('k \<times> 'v) list" where
  "dict ps = foldl (\<lambda>d (k, v). AList.update k v d) [] ps"

text \<open>Python's slice \<^verbatim>\<open>text[i:j]\<close> for non-negative \<open>i\<close>, \<open>j\<close>: clamped to the text.\<close>

definition slice :: "'a list \<Rightarrow> nat \<Rightarrow> nat \<Rightarrow> 'a list" where
  "slice text i j = drop i (take j text)"

section \<open>Atomizer (atomizer.py)\<close>

text \<open>
  A text is a list of code points; the model is polymorphic in the type \<open>'c\<close> of
  code points. An atom is a text. The vocabulary maps atoms to indices.
\<close>

record 'c atomizer =
  vocab :: "('c list \<times> int) list"
  vocab_size :: nat
  decoder :: "(int \<times> 'c list) list"

text \<open>\<^verbatim>\<open>Atomizer.__init__\<close>\<close>

definition Atomizer :: "('c list \<times> int) list \<Rightarrow> 'c atomizer" where
  "Atomizer v =
     \<lparr>vocab = v, vocab_size = length v,
      decoder = dict (map (\<lambda>(key, val). (val, key)) v)\<rparr>"

text \<open>
  \<^verbatim>\<open>Atomizer.deatomize\<close>: every index is decoded and the atoms are joined; an unknown
  index raises \<^verbatim>\<open>KeyError\<close>, which is turned into \<^verbatim>\<open>VocabError\<close>.
\<close>

fun decode_all :: "(int \<times> 'c list) list \<Rightarrow> int list \<Rightarrow> error + 'c list list" where
  "decode_all d [] = Inr []"
| "decode_all d (x # xs) =
     (case map_of d x of
        None \<Rightarrow> Inl KeyError
      | Some a \<Rightarrow> (case decode_all d xs of Inl e \<Rightarrow> Inl e | Inr as \<Rightarrow> Inr (a # as)))"

definition deatomize :: "('c, 'z) atomizer_scheme \<Rightarrow> int list \<Rightarrow> error + 'c list" where
  "deatomize A encoded =
     (case decode_all (decoder A) encoded of
        Inl e \<Rightarrow> Inl (if e = KeyError then VocabError else e)
      | Inr as \<Rightarrow> Inr (concat as))"

subsection \<open>CharacterAtomizer\<close>

text \<open>
  \<^verbatim>\<open>collections.Counter(text)\<close>: the number of occurrences of every character, in the
  order in which the characters are first met.
\<close>

definition Counter :: "'c list \<Rightarrow> ('c \<times> int) list" where
  "Counter text =
     foldl (\<lambda>d c. AList.update c (case map_of d c of None \<Rightarrow> 1 | Some n \<Rightarrow> n + 1) d) [] text"

text \<open>
  \<^verbatim>\<open>CharacterAtomizer.from_text\<close>. \<^verbatim>\<open>sorted\<close> is stable, as \<open>sort_key\<close> is. The unpacking
  \<^verbatim>\<open>atoms, _ = zip(*count_pairs)\<close> needs the two tuples that \<^verbatim>\<open>zip\<close> yields for a
  non-empty list of pairs; for the empty list it yields nothing and the unpacking raises
  \<^verbatim>\<open>ValueError\<close>. An atom is the string of one character.
\<close>

definition CharacterAtomizer_from_text :: "'c list \<Rightarrow> error + 'c atomizer" where
  "CharacterAtomizer_from_text text =
     (let counter = Counter text;
          count_pairs = sort_key (\<lambda>x. - snd x) counter
      in if count_pairs = [] then Inl ValueError
         else
           (let atoms = map (\<lambda>x. [fst x]) count_pairs;
                vocab = dict (zip atoms (map int [0..<length atoms]))
            in Inr (Atomizer vocab)))"

subsection \<open>GreedyAtomizer\<close>

record 'c greedy_atomizer = "'c atomizer" +
  lookup :: "('c \<times> 'c list list) list"

text \<open>
  \<^verbatim>\<open>GreedyAtomizer.__init__\<close>. The source collects \<^verbatim>\<open>multichars\<close> (from the sorted
  keys \<^verbatim>\<open>self.atoms\<close>) and \<^verbatim>\<open>first_chars\<close> into sets, whose iteration order is not
  defined; they are lists without duplicates here, in the order of the vocabulary. Only
  membership in them is ever used.
\<close>

definition multichars :: "('c list \<times> int) list \<Rightarrow> 'c list list" where
  "multichars v = remdups (filter (\<lambda>k. length k > 1) (map fst v))"

definition first_chars :: "('c list \<times> int) list \<Rightarrow> 'c list" where
  "first_chars v = remdups (map hd (multichars v))"

text \<open>\<^verbatim>\<open>[a for a in multichars if a[0] == c]\<close>\<close>

definition head_atoms :: "('c list \<times> int) list \<Rightarrow> 'c \<Rightarrow> 'c list list" where
  "head_atoms v c = filter (\<lambda>a. hd a = c) (multichars v)"

definition GreedyAtomizer :: "('c list \<times> int) list \<Rightarrow> 'c greedy_atomizer" where
  "GreedyAtomizer v =
     \<lparr>vocab = v, vocab_size = length v,
      decoder = dict (map (\<lambda>(key, val). (val, key)) v),
      lookup = dict (map (\<lambda>c. (c, head_atoms v c)) (first_chars v))\<rparr>"

text \<open>The state of the scan: the anchor \<open>i\<close>, the trial end \<open>j\<close> and the indices so far.\<close>

type_synonym scan_state = "nat \<times> nat \<times> int list"

text \<open>
  The inner \<^verbatim>\<open>while j > i + 1: ... else: ...\<close> loop of \<^verbatim>\<open>GreedyAtomizer.atomize\<close>,
  with \<open>cands\<close> the list \<^verbatim>\<open>self.lookup[text[i]]\<close>.
\<close>

function shrink ::
  "('c, 'z) greedy_atomizer_scheme \<Rightarrow> 'c list \<Rightarrow> 'c list list \<Rightarrow> scan_state \<Rightarrow> error + scan_state"
where
  "shrink A text cands (i, j, indices) =
     (if j > i + 1 then
        (if \<exists>x \<in> set cands. x = slice text i j then
           (case map_of (vocab A) (slice text i j) of
              None \<Rightarrow> Inl KeyError
            | Some v \<Rightarrow> Inr (j, j + 2, indices @ [v]))
         else shrink A text cands (i, j - 1, indices))
      else
        (case map_of (vocab A) [text ! i] of
           None \<Rightarrow> Inl KeyError
         | Some v \<Rightarrow> Inr (i + 1, j + 2, indices @ [v])))"
  by pat_completeness auto
termination
  by (relation "measure (\<lambda>(A, text, cands, i, j, indices). j - i)") auto

declare shrink.simps [simp del]

text \<open>
  One pass of the body of the outer \<^verbatim>\<open>while i < len(text)\<close> loop. It is only run at
  \<open>i < length text\<close>, so \<open>text ! i\<close> is the character \<^verbatim>\<open>text[i]\<close>.
\<close>

definition step ::
  "('c, 'z) greedy_atomizer_scheme \<Rightarrow> 'c list \<Rightarrow> scan_state \<Rightarrow> error + scan_state"
where
  "step A text s =
     (case s of (i, j, indices) \<Rightarrow>
        (case map_of (lookup A) (text ! i) of
           Some (c # cs) \<Rightarrow>
             (if j \<le> length text \<and> (\<exists>x \<in> set (c # cs). prefix (slice text i j) x)
              then Inr (i, j + 1, indices)
              else shrink A text (c # cs) (i, j, indices))
         | _ \<Rightarrow>
             (case map_of (vocab A) [text ! i] of
                None \<Rightarrow> Inl KeyError
              | Some v \<Rightarrow> Inr (i + 1, j + 2, indices @ [v]))))"

text \<open>
  The outer loop. It is a partial function: \<open>None\<close> would mean that the loop runs forever.
\<close>

partial_function (option) atomize_loop ::
  "('c, 'z) greedy_atomizer_scheme \<Rightarrow> 'c list \<Rightarrow> scan_state \<Rightarrow> (error + int list) option"
where
  "atomize_loop A text s =
     (if fst s < length text then
        (case step A text s of
           Inl e \<Rightarrow> Some (Inl e)
         | Inr s' \<Rightarrow> atomize_loop A text s')
      else Some (Inr (snd (snd s))))"

text \<open>
  \<^verbatim>\<open>np.array(indices)\<close> on a list of Python integers. NumPy stores the list with one
  element type: 64-bit signed integers when every value fits, 64-bit unsigned integers
  when every value is non-negative and fits, Python objects when some value fits neither
  type, and else (a value from \<open>2\<^sup>6\<^sup>3\<close> on next to a negative one) double-precision
  floats. Only the last case changes a value: it becomes the nearest double, ties to the
  even significand. The doubles met here are whole numbers, so the elements of the array
  are integers again, and a dictionary finds a key by its numeric value.

  \<open>bit_length\<close> is the number of binary digits; a double has 53 of them.
\<close>

function bit_length :: "int \<Rightarrow> nat" where
  "bit_length n = (if n \<le> 0 then 0 else Suc (bit_length (n div 2)))"
  by pat_completeness auto
termination
  by (relation "measure nat") auto

declare bit_length.simps [simp del]

definition float64_of_int :: "int \<Rightarrow> int" where
  "float64_of_int x =
     (let a = \<bar>x\<bar>; b = bit_length a in
      if b \<le> 53 then x
      else
        (let q = 2 ^ (b - 53); m = a div q; r = a mod q;
             m' = (if q < 2 * r \<or> (2 * r = q \<and> odd m) then m + 1 else m)
         in sgn x * (m' * q)))"

definition np_array :: "int list \<Rightarrow> int list" where
  "np_array indices =
     (if list_all (\<lambda>x. - (2 ^ 63) \<le> x \<and> x < 2 ^ 63) indices then indices
      else if list_all (\<lambda>x. 0 \<le> x \<and> x < 2 ^ 64) indices then indices
      else if list_ex (\<lambda>x. x < - (2 ^ 63) \<or> 2 ^ 64 \<le> x) indices then indices
      else map float64_of_int indices)"

text \<open>
  \<^verbatim>\<open>GreedyAtomizer.atomize\<close>: the loop from \<open>i = 0\<close>, \<open>j = 2\<close>, inside
  \<^verbatim>\<open>try ... except KeyError: raise VocabError\<close>, and \<^verbatim>\<open>np.array(indices)\<close> at the end.
\<close>

definition atomize ::
  "('c, 'z) greedy_atomizer_scheme \<Rightarrow> 'c list \<Rightarrow> (error + int list) option"
where
  "atomize A text =
     (case atomize_loop A text (0, 2, []) of
        None \<Rightarrow> None
      | Some (Inl e) \<Rightarrow> Some (Inl (if e = KeyError then VocabError else e))
      | Some (Inr indices) \<Rightarrow> Some (Inr (np_array indices)))"

text \<open>
  \<^verbatim>\<open>Atomizer.tokenize\<close>, for the greedy atomizer: the decoding is outside any
  \<^verbatim>\<open>try\<close>, so an unknown index would raise \<^verbatim>\<open>KeyError\<close>.
\<close>

definition tokenize ::
  "('c, 'z) greedy_atomizer_scheme \<Rightarrow> 'c list \<Rightarrow> (error + 'c list list) option"
where
  "tokenize A text =
     (case atomize A text of
        None \<Rightarrow> None
      | Some (Inl e) \<Rightarrow> Some (Inl e)
      | Some (Inr indices) \<Rightarrow> Some (decode_all (decoder A) indices))"

declare atomize_loop.simps [code]

subsection \<open>The seed vocabulary\<close>

text \<open>The multi-character atoms of \<^verbatim>\<open>OPENCL_ATOMS\<close>, as the source lists them.\<close>

definition OPENCL_multichar_atoms :: "string list" where
  "OPENCL_multichar_atoms =
    [''  '', ''__assert'', ''__attribute'', ''__builtin_astype'', ''__clc_fabs'',
     ''__clc_fma'', ''__constant'', ''__global'', ''__inline'', ''__kernel'',
     ''__local'', ''__private'', ''__read_only'', ''__read_write'', ''__write_only'',
     [CHR 0x2A, CHR 0x2F], [CHR 0x2F, CHR 0x2A], [CHR 0x2F, CHR 0x2F], ''abs'',
     ''alignas'', ''alignof'', ''atomic_add'', ''auto'', ''barrier'', ''bool'',
     ''break'', ''case'', ''char'', ''clamp'', ''complex'', ''const'', ''constant'',
     ''continue'', ''default'', ''define'', ''defined'', ''do'', ''double'', ''elif'',
     ''else'', ''endif'', ''enum'', ''error'', ''event_t'', ''extern'', ''fabs'',
     ''false'', ''float'', ''for'', ''get_global_id'', ''get_global_size'',
     ''get_local_id'', ''get_local_size'', ''get_num_groups'', ''global'', ''goto'',
     ''half'', ''if'', ''ifdef'', ''ifndef'', ''image1d_array_t'', ''image1d_buffer_t'',
     ''image1d_t'', ''image2d_array_t'', ''image2d_t'', ''image3d_t'', ''imaginary'',
     ''include'', ''inline'', ''int'', ''into'', ''kernel'', ''line'', ''local'',
     ''long'', ''noreturn'', ''pragma'', ''private'', ''quad'', ''read_only'',
     ''read_write'', ''register'', ''restrict'', ''return'', ''sampler_t'', ''short'',
     ''shuffle'', ''signed'', ''size_t'', ''sizeof'', ''sqrt'', ''static'', ''struct'',
     ''switch'', ''true'', ''typedef'', ''u32'', ''uchar'', ''uint'', ''ulong'',
     ''undef'', ''union'', ''unsigned'', ''void'', ''volatile'', ''while'', ''wide'',
     ''write_only'']"

text \<open>
  The constants of Python's \<^verbatim>\<open>string\<close> module.
  \<^verbatim>\<open>string.printable\<close> is \<^verbatim>\<open>digits + ascii_letters + punctuation + whitespace\<close>;
  the punctuation and the whitespace (space, tab, line feed, carriage return, vertical
  tab, form feed) are given by their character codes.
\<close>

definition digits :: string where
  "digits = ''0123456789''"

definition ascii_lowercase :: string where
  "ascii_lowercase = ''abcdefghijklmnopqrstuvwxyz''"

definition ascii_uppercase :: string where
  "ascii_uppercase = ''ABCDEFGHIJKLMNOPQRSTUVWXYZ''"

definition ascii_letters :: string where
  "ascii_letters = ascii_lowercase @ ascii_uppercase"

definition punctuation :: string where
  "punctuation =
    [CHR 0x21, CHR 0x22, CHR 0x23, CHR 0x24, CHR 0x25, CHR 0x26, CHR 0x27, CHR 0x28,
     CHR 0x29, CHR 0x2A, CHR 0x2B, CHR 0x2C, CHR 0x2D, CHR 0x2E, CHR 0x2F, CHR 0x3A,
     CHR 0x3B, CHR 0x3C, CHR 0x3D, CHR 0x3E, CHR 0x3F, CHR 0x40, CHR 0x5B, CHR 0x5C,
     CHR 0x5D, CHR 0x5E, CHR 0x5F, CHR 0x60, CHR 0x7B, CHR 0x7C, CHR 0x7D, CHR 0x7E]"

definition whitespace :: string where
  "whitespace =
    [CHR 0x20, CHR 0x09, CHR 0x0A, CHR 0x0D, CHR 0x0B, CHR 0x0C]"

definition printable :: string where
  "printable = digits @ ascii_letters @ punctuation @ whitespace"

text \<open>
  \<^verbatim>\<open>OPENCL_ATOMS\<close> is a Python set: this list holds its elements, and an iteration over
  the set visits them in an order that is not defined.
\<close>

definition OPENCL_ATOMS :: "string list" where
  "OPENCL_ATOMS = OPENCL_multichar_atoms @ map (\<lambda>c. [c]) printable"

text \<open>
  The first line of \<^verbatim>\<open>GreedyAtomizer.from_text\<close>,
  \<^verbatim>\<open>dict(zip(OPENCL_ATOMS, range(len(OPENCL_ATOMS))))\<close>, where \<open>order\<close> is the order in which
  the set is iterated.
\<close>

definition opencl_vocab :: "string list \<Rightarrow> (string \<times> int) list" where
  "opencl_vocab order = dict (zip order (map int [0..<length order]))"


section \<open>Kernel driver (cldrive.py)\<close>

subsection \<open>NumPy arrays\<close>

text \<open>
  Modelled from the spec: \<^verbatim>\<open>clutil.KernelArg.numpy_type\<close> is not among the sources. The
  specification gives the element types as the set
  \<^verbatim>\<open>{i8,u8,i16,u16,i32,u32,i64,u64,f32,f64}\<close>; \<open>itemsize\<close> is the width in bytes.
\<close>

datatype np_dtype = I8 | U8 | I16 | U16 | I32 | U32 | I64 | U64 | F32 | F64

fun itemsize :: "np_dtype \<Rightarrow> nat" where
  "itemsize I8 = 1"
| "itemsize U8 = 1"
| "itemsize I16 = 2"
| "itemsize U16 = 2"
| "itemsize I32 = 4"
| "itemsize U32 = 4"
| "itemsize I64 = 8"
| "itemsize U64 = 8"
| "itemsize F32 = 4"
| "itemsize F64 = 8"

text \<open>
  A one-dimensional array: its element type and its elements. The elements are real
  numbers; rounding to the element type is the environment's \<open>astype_elem\<close> below.
\<close>

record ndarray =
  dtype :: np_dtype
  elems :: "real list"

definition nbytes :: "ndarray \<Rightarrow> int" where
  "nbytes a = int (length (elems a) * itemsize (dtype a))"

subsection \<open>Device-side values\<close>

text \<open>
  What a kernel argument holds on the device side: a \<^verbatim>\<open>cl.LocalMemory\<close> object (its
  identity and its size), a \<^verbatim>\<open>cl.Buffer\<close> (its handle) or a NumPy scalar.
\<close>

datatype devdata =
    LocalMemory nat int
  | Buffer nat
  | Scalar np_dtype real

datatype mem_flag = COPY_HOST_PTR | READ_ONLY | READ_WRITE

datatype command =
    CopyHostToDevice nat
  | CopyDeviceToHost nat
  | Launch "devdata option list" "int list" int

subsection \<open>Kernel arguments\<close>

text \<open>
  \<^verbatim>\<open>clutil.KernelArg\<close> is not among the sources: the properties that it parses from the
  declaration (\<^verbatim>\<open>is_pointer\<close>, \<^verbatim>\<open>is_local\<close>, \<^verbatim>\<open>is_const\<close>, \<^verbatim>\<open>vector_width\<close>,
  \<^verbatim>\<open>numpy_type\<close>) are fields of the record, next to the attributes that the payload
  code sets (\<^verbatim>\<open>hostdata\<close>, \<^verbatim>\<open>devdata\<close>, \<^verbatim>\<open>bufsize\<close>, \<^verbatim>\<open>flags\<close>; \<open>None\<close> before they are set).
\<close>

record KernelArg =
  arg_string :: string
  is_pointer :: bool
  is_local :: bool
  is_const :: bool
  vector_width :: int
  numpy_type :: np_dtype
  hostdata :: "ndarray option"
  devdata :: "devdata option"
  bufsize :: "int option"
  flags :: "mem_flag set option"

text \<open>
  \<^verbatim>\<open>clutil.KernelArg(a.string)\<close>: parsing the same declaration again gives the same
  properties and none of the payload attributes.
\<close>

definition KernelArg_of :: "KernelArg \<Rightarrow> KernelArg" where
  "KernelArg_of a = a\<lparr>hostdata := None, devdata := None, bufsize := None, flags := None\<rparr>"

subsection \<open>The OpenCL runtime and the other externals\<close>

text \<open>
  The state outside the program: the counter from which fresh objects and buffers are
  numbered, the contents of the device buffers (a dictionary from handles to contents),
  the commands enqueued so far (an event is
  the position of its command) and the number of calls of \<^verbatim>\<open>np.random.rand\<close> so far.
\<close>

record world =
  next_id :: nat
  devmem :: "(nat \<times> real list) list"
  enqueued :: "command list"
  draws :: nat

text \<open>
  The behaviour of NumPy, of the OpenCL device and of the compiler, which the driver
  takes as given:
  \<^item> \<open>astype_elem\<close>: the conversion of one element to an element type;
  \<^item> \<open>random_elem k i\<close>: element \<open>i\<close> of the \<open>k\<close>-th array drawn by \<^verbatim>\<open>np.random.rand\<close>;
  \<^item> \<open>buffer_ok n\<close>: the device accepts a buffer of \<open>n\<close> bytes;
  \<^item> \<open>event_ms e\<close>: the time of event \<open>e\<close> from submission to end in milliseconds, or
    \<open>None\<close> when the profiling interface fails;
  \<^item> \<open>accepts_args\<close>: \<^verbatim>\<open>kernel.set_args\<close> takes these arguments;
  \<^item> \<open>kernel_exec e\<close>: what the launch with event \<open>e\<close> does to the device buffers, or
    \<open>None\<close> when the launch fails;
  \<^item> \<open>compile\<close>: the kernels of the built program, or \<open>None\<close> when the build fails;
  \<^item> \<open>function_name\<close>: the name a kernel reports;
  \<^item> \<open>prototype_args\<close>: the argument descriptors that \<^verbatim>\<open>clutil\<close> parses from a source;
  \<^item> \<open>flush_ok\<close>: \<^verbatim>\<open>queue.flush()\<close> returns in this state (it raises otherwise).
\<close>

record cl_env =
  astype_elem :: "np_dtype \<Rightarrow> real \<Rightarrow> real"
  random_elem :: "nat \<Rightarrow> nat \<Rightarrow> real"
  buffer_ok :: "int \<Rightarrow> bool"
  event_ms :: "nat \<Rightarrow> real option"
  accepts_args :: "devdata option list \<Rightarrow> bool"
  kernel_exec ::
    "nat \<Rightarrow> devdata option list \<Rightarrow> int list \<Rightarrow> int \<Rightarrow>
     (nat \<times> real list) list \<Rightarrow> (nat \<times> real list) list option"
  compile :: "string \<Rightarrow> nat list option"
  function_name :: "nat \<Rightarrow> string"
  prototype_args :: "string \<Rightarrow> KernelArg list"
  flush_ok :: "world \<Rightarrow> bool"

text \<open>\<^verbatim>\<open>get_event_time\<close>: any failure of the profiling interface raises \<^verbatim>\<open>E_BAD_PROFILE\<close>.\<close>

definition get_event_time :: "cl_env \<Rightarrow> nat \<Rightarrow> error + real" where
  "get_event_time env event =
     (case event_ms env event of None \<Rightarrow> Inl E_BAD_PROFILE | Some t \<Rightarrow> Inr t)"

text \<open>\<^verbatim>\<open>ndarray.astype(dtype)\<close>\<close>

definition astype :: "cl_env \<Rightarrow> np_dtype \<Rightarrow> ndarray \<Rightarrow> ndarray" where
  "astype env d a = \<lparr>dtype = d, elems = map (astype_elem env d) (elems a)\<rparr>"

text \<open>
  The array factories. A factory takes the state and the length and returns the array, or
  \<open>None\<close> when it raises. \<^verbatim>\<open>np.arange(n)\<close> is empty for \<open>n \<le> 0\<close>;
  \<^verbatim>\<open>np.random.rand(n)\<close> raises for \<open>n < 0\<close>.
\<close>

type_synonym factory = "world \<Rightarrow> int \<Rightarrow> (ndarray \<times> world) option"

definition np_arange :: factory where
  "np_arange w n = Some (\<lparr>dtype = I64, elems = map real [0..<nat n]\<rparr>, w)"

definition np_random_rand :: "cl_env \<Rightarrow> factory" where
  "np_random_rand env w n =
     (if n < 0 then None
      else Some (\<lparr>dtype = F64, elems = map (random_elem env (draws w)) [0..<nat n]\<rparr>,
                 w\<lparr>draws := draws w + 1\<rparr>))"

text \<open>\<^verbatim>\<open>cl.LocalMemory(size)\<close>: a fresh object.\<close>

definition new_LocalMemory :: "world \<Rightarrow> int \<Rightarrow> devdata \<times> world" where
  "new_LocalMemory w n = (LocalMemory (next_id w) n, w\<lparr>next_id := next_id w + 1\<rparr>)"

text \<open>
  \<^verbatim>\<open>cl.Buffer(ctx, flags, hostbuf=h)\<close>: a fresh buffer, which holds a copy of the host
  array when \<^verbatim>\<open>COPY_HOST_PTR\<close> is among the flags; \<open>None\<close> when the device refuses.
\<close>

definition new_Buffer :: "cl_env \<Rightarrow> world \<Rightarrow> mem_flag set \<Rightarrow> ndarray \<Rightarrow> (devdata \<times> world) option" where
  "new_Buffer env w fl h =
     (if buffer_ok env (nbytes h) then
        Some (Buffer (next_id w),
          w\<lparr>next_id := next_id w + 1,
            devmem := AList.update (next_id w)
              (if COPY_HOST_PTR \<in> fl then elems h else replicate (length (elems h)) 0)
              (devmem w)\<rparr>)
      else None)"

subsection \<open>KernelPayload\<close>

record KernelPayload =
  payload_ctx :: nat
  args :: "KernelArg list"
  ndrange :: "int list"
  transfersize :: int


text \<open>
  \<^verbatim>\<open>KernelPayload.__deepcopy__\<close>: the body of the loop over \<^verbatim>\<open>zip(self.args, args)\<close>,
  where \<open>dst\<close> is \<^verbatim>\<open>KernelArg(src.string)\<close>. A failure of the runtime is a
  \<^verbatim>\<open>RuntimeError\<close>.
\<close>

definition copy_arg :: "cl_env \<Rightarrow> KernelArg \<Rightarrow> world \<Rightarrow> error + KernelArg \<times> world" where
  "copy_arg env src w =
     (let dst = KernelArg_of src in
      if hostdata src = None \<and> is_local src then
        (case bufsize src of
           None \<Rightarrow> Inl TypeError
         | Some n \<Rightarrow>
             (case new_LocalMemory w n of
                (d, w') \<Rightarrow> Inr (dst\<lparr>hostdata := None, bufsize := Some n, devdata := Some d\<rparr>, w')))
      else if hostdata src = None then
        Inr (dst\<lparr>hostdata := None, devdata := devdata src\<rparr>, w)
      else
        (case (hostdata src, flags src) of
           (Some h, Some fl) \<Rightarrow>
             (case new_Buffer env w fl h of
                None \<Rightarrow> Inl RuntimeError
              | Some (d, w') \<Rightarrow>
                  Inr (dst\<lparr>hostdata := Some h, flags := Some fl, devdata := Some d\<rparr>, w'))
         | _ \<Rightarrow> Inl TypeError))"

fun copy_args :: "cl_env \<Rightarrow> KernelArg list \<Rightarrow> world \<Rightarrow> error + KernelArg list \<times> world" where
  "copy_args env [] w = Inr ([], w)"
| "copy_args env (src # rest) w =
     (case copy_arg env src w of
        Inl e \<Rightarrow> Inl e
      | Inr (dst, w') \<Rightarrow>
          (case copy_args env rest w' of
             Inl e \<Rightarrow> Inl e
           | Inr (dsts, w'') \<Rightarrow> Inr (dst # dsts, w'')))"

definition deepcopy :: "cl_env \<Rightarrow> KernelPayload \<Rightarrow> world \<Rightarrow> error + KernelPayload \<times> world" where
  "deepcopy env p w =
     (case copy_args env (args p) w of
        Inl e \<Rightarrow> Inl e
      | Inr (dsts, w') \<Rightarrow>
          Inr (\<lparr>payload_ctx = payload_ctx p, args = dsts, ndrange = ndrange p,
                transfersize = transfersize p\<rparr>, w'))"

text \<open>
  Python's \<^verbatim>\<open>!=\<close> on the device-side values. \<^verbatim>\<open>cl.LocalMemory\<close> defines no comparison, so
  two such objects are compared by identity; buffers are compared by handle and NumPy
  scalars by value.
\<close>

fun devdata_ne :: "devdata option \<Rightarrow> devdata option \<Rightarrow> bool" where
  "devdata_ne None None = False"
| "devdata_ne (Some (LocalMemory a m)) (Some (LocalMemory b n)) = (a \<noteq> b)"
| "devdata_ne (Some (Buffer a)) (Some (Buffer b)) = (a \<noteq> b)"
| "devdata_ne (Some (Scalar d x)) (Some (Scalar e y)) = (x \<noteq> y)"
| "devdata_ne x y = True"

text \<open>
  \<^verbatim>\<open>KernelPayload.__eq__\<close>: the loop over \<^verbatim>\<open>zip(self.args, other.args)\<close>. Every element
  is a \<^verbatim>\<open>KernelArg\<close>, so the test of the types never fails. \<^verbatim>\<open>len(None)\<close> raises
  \<^verbatim>\<open>TypeError\<close>.
\<close>

fun args_eq :: "(KernelArg \<times> KernelArg) list \<Rightarrow> error + bool" where
  "args_eq [] = Inr True"
| "args_eq ((x, y) # rest) =
     (case hostdata x of
        None \<Rightarrow> (if devdata_ne (devdata x) (devdata y) then Inr False else args_eq rest)
      | Some hx \<Rightarrow>
          (case hostdata y of
             None \<Rightarrow> Inl TypeError
           | Some hy \<Rightarrow>
               (if length (elems hx) \<noteq> length (elems hy) then Inr False
                else if list_ex (\<lambda>(e1, e2). e1 \<noteq> e2) (zip (elems hx) (elems hy)) then Inr False
                else args_eq rest)))"

definition payload_eq :: "KernelPayload \<Rightarrow> KernelPayload \<Rightarrow> error + bool" where
  "payload_eq p other =
     (if payload_ctx p \<noteq> payload_ctx other then Inr False
      else if length (args p) \<noteq> length (args other) then Inr False
      else args_eq (zip (args p) (args other)))"

text \<open>\<^verbatim>\<open>KernelPayload.__ne__\<close>\<close>

definition payload_ne :: "KernelPayload \<Rightarrow> KernelPayload \<Rightarrow> error + bool" where
  "payload_ne p other = (case payload_eq p other of Inl e \<Rightarrow> Inl e | Inr b \<Rightarrow> Inr (\<not> b))"

text \<open>
  \<^verbatim>\<open>cl.enqueue_copy\<close> and the launch of a kernel append a command to the queue; the
  event of a command is its position.
\<close>

definition enqueue :: "world \<Rightarrow> command \<Rightarrow> nat \<times> world" where
  "enqueue w c = (length (enqueued w), w\<lparr>enqueued := enqueued w @ [c]\<rparr>)"

text \<open>
  \<^verbatim>\<open>KernelPayload.host_to_device\<close>: the loop over the arguments, with the accumulator
  \<open>elapsed\<close>. The target of the copy has to be a buffer.
\<close>

fun host_to_device_loop ::
  "cl_env \<Rightarrow> KernelArg list \<Rightarrow> real \<Rightarrow> world \<Rightarrow> error + real \<times> world"
where
  "host_to_device_loop env [] elapsed w = Inr (elapsed, w)"
| "host_to_device_loop env (arg # rest) elapsed w =
     (case hostdata arg of
        None \<Rightarrow> host_to_device_loop env rest elapsed w
      | Some h \<Rightarrow>
          (case devdata arg of
             Some (Buffer b) \<Rightarrow>
               (case enqueue (w\<lparr>devmem := AList.update b (elems h) (devmem w)\<rparr>) (CopyHostToDevice b) of
                  (event, w') \<Rightarrow>
                    (case get_event_time env event of
                       Inl e \<Rightarrow> Inl e
                     | Inr t \<Rightarrow> host_to_device_loop env rest (elapsed + t) w'))
           | _ \<Rightarrow> Inl TypeError))"

definition host_to_device :: "cl_env \<Rightarrow> KernelPayload \<Rightarrow> world \<Rightarrow> error + real \<times> world" where
  "host_to_device env p w = host_to_device_loop env (args p) 0 w"

text \<open>
  \<^verbatim>\<open>KernelPayload.device_to_host\<close>: the loop over the arguments. The copy writes the
  contents of the buffer into the host array of the argument, so the arguments are
  returned as well. The time of the event is computed and dropped: \<open>elapsed\<close> stays as
  it is.
\<close>

fun device_to_host_loop ::
  "cl_env \<Rightarrow> KernelArg list \<Rightarrow> real \<Rightarrow> world \<Rightarrow> error + (real \<times> KernelArg list) \<times> world"
where
  "device_to_host_loop env [] elapsed w = Inr ((elapsed, []), w)"
| "device_to_host_loop env (arg # rest) elapsed w =
     (if hostdata arg = None \<or> is_const arg then
        (case device_to_host_loop env rest elapsed w of
           Inl e \<Rightarrow> Inl e
         | Inr ((t, rest'), w') \<Rightarrow> Inr ((t, arg # rest'), w'))
      else
        (case (hostdata arg, devdata arg) of
           (Some h, Some (Buffer b)) \<Rightarrow>
             (case map_of (devmem w) b of
                None \<Rightarrow> Inl RuntimeError
              | Some contents \<Rightarrow>
                  (case enqueue w (CopyDeviceToHost b) of
                     (event, w') \<Rightarrow>
                       (case get_event_time env event of
                          Inl e \<Rightarrow> Inl e
                        | Inr t \<Rightarrow>
                            (case device_to_host_loop env rest elapsed w' of
                               Inl e \<Rightarrow> Inl e
                             | Inr ((t', rest'), w'') \<Rightarrow>
                                 Inr ((t', arg\<lparr>hostdata := Some (h\<lparr>elems := contents\<rparr>)\<rparr> # rest'),
                                      w'')))))
         | _ \<Rightarrow> Inl TypeError))"

definition device_to_host ::
  "cl_env \<Rightarrow> KernelPayload \<Rightarrow> world \<Rightarrow> error + (real \<times> KernelPayload) \<times> world"
where
  "device_to_host env p w =
     (case device_to_host_loop env (args p) 0 w of
        Inl e \<Rightarrow> Inl e
      | Inr ((t, args'), w') \<Rightarrow> Inr ((t, p\<lparr>args := args'\<rparr>), w'))"

text \<open>\<^verbatim>\<open>KernelPayload.kargs\<close>\<close>

definition kargs :: "KernelPayload \<Rightarrow> devdata option list" where
  "kargs p = map devdata (args p)"

subsection \<open>KernelDriver\<close>

record KernelDriver =
  driver_ctx :: nat
  src :: string
  program :: "nat list"
  prototype :: "KernelArg list"
  kernel :: nat
  name :: string
  wgsizes :: "int list"
  transfers :: "int list"
  runtimes :: "real list"

text \<open>
  \<^verbatim>\<open>KernelDriver.__init__\<close> with \<^verbatim>\<open>build_program\<close>: a source that does not build raises
  \<^verbatim>\<open>E_BAD_CODE\<close>, a program with other than one kernel \<^verbatim>\<open>E_UGLY_CODE\<close>.
\<close>

definition KernelDriver_init :: "cl_env \<Rightarrow> nat \<Rightarrow> string \<Rightarrow> error + KernelDriver" where
  "KernelDriver_init env ctx source =
     (case compile env source of
        None \<Rightarrow> Inl E_BAD_CODE
      | Some kernels \<Rightarrow>
          (if length kernels \<noteq> 1 then Inl E_UGLY_CODE
           else Inr \<lparr>driver_ctx = ctx, src = source, program = kernels,
                     prototype = prototype_args env source, kernel = kernels ! 0,
                     name = function_name env (kernels ! 0),
                     wgsizes = [], transfers = [], runtimes = []\<rparr>))"

text \<open>
  \<^verbatim>\<open>KernelPayload._create_payload\<close>: the body of the loop over the arguments, which sets
  the attributes of \<open>arg\<close> and adds to \<open>transfer\<close>. \<open>None\<close> stands for any exception, which
  the caller turns into \<^verbatim>\<open>E_BAD_ARGS\<close>.
\<close>

definition create_arg ::
  "cl_env \<Rightarrow> factory \<Rightarrow> int \<Rightarrow> KernelArg \<Rightarrow> int \<Rightarrow> world \<Rightarrow> (KernelArg \<times> int \<times> world) option"
where
  "create_arg env nparray sz arg0 transfer w =
     (let arg = arg0\<lparr>hostdata := None\<rparr>;
          dt = numpy_type arg;
          veclength = sz * vector_width arg
      in
      if is_pointer arg \<and> is_local arg then
        (case nparray w veclength of
           None \<Rightarrow> None
         | Some (nonbuf, w1) \<Rightarrow>
             (case new_LocalMemory w1 (nbytes nonbuf) of
                (d, w2) \<Rightarrow>
                  Some (arg\<lparr>bufsize := Some (nbytes nonbuf), devdata := Some d\<rparr>, transfer, w2)))
      else if is_pointer arg then
        (case nparray w veclength of
           None \<Rightarrow> None
         | Some (a, w1) \<Rightarrow>
             (let h = astype env dt a;
                  fl = {COPY_HOST_PTR} \<union> (if is_const arg then {READ_ONLY} else {READ_WRITE})
              in case new_Buffer env w1 fl h of
                   None \<Rightarrow> None
                 | Some (d, w2) \<Rightarrow>
                     Some (arg\<lparr>hostdata := Some h, flags := Some fl, devdata := Some d\<rparr>,
                           (if is_const arg then transfer + nbytes h else transfer + 2 * nbytes h),
                           w2)))
      else
        Some (arg\<lparr>devdata := Some (Scalar dt (astype_elem env dt (of_int sz)))\<rparr>,
              transfer, w))"

fun create_args ::
  "cl_env \<Rightarrow> factory \<Rightarrow> int \<Rightarrow> KernelArg list \<Rightarrow> int \<Rightarrow> world \<Rightarrow>
   (KernelArg list \<times> int \<times> world) option"
where
  "create_args env nparray sz [] transfer w = Some ([], transfer, w)"
| "create_args env nparray sz (arg # rest) transfer w =
     (case create_arg env nparray sz arg transfer w of
        None \<Rightarrow> None
      | Some (arg', transfer', w') \<Rightarrow>
          (case create_args env nparray sz rest transfer' w' of
             None \<Rightarrow> None
           | Some (rest', transfer'', w'') \<Rightarrow> Some (arg' # rest', transfer'', w'')))"

definition create_payload ::
  "cl_env \<Rightarrow> factory \<Rightarrow> KernelDriver \<Rightarrow> int \<Rightarrow> world \<Rightarrow> error + KernelPayload \<times> world"
where
  "create_payload env nparray driver sz w =
     (case create_args env nparray sz (map KernelArg_of (prototype driver)) 0 w of
        None \<Rightarrow> Inl E_BAD_ARGS
      | Some (args', transfer, w') \<Rightarrow>
          Inr (\<lparr>payload_ctx = driver_ctx driver, args = args', ndrange = [sz],
                transfersize = transfer\<rparr>, w'))"

definition create_sequential ::
  "cl_env \<Rightarrow> KernelDriver \<Rightarrow> int \<Rightarrow> world \<Rightarrow> error + KernelPayload \<times> world"
where
  "create_sequential env driver sz w = create_payload env np_arange driver sz w"

definition create_random ::
  "cl_env \<Rightarrow> KernelDriver \<Rightarrow> int \<Rightarrow> world \<Rightarrow> error + KernelPayload \<times> world"
where
  "create_random env driver sz w = create_payload env (np_random_rand env) driver sz w"

text \<open>
  \<^verbatim>\<open>KernelDriver.__call__\<close>. The driver is returned in every case: an exception leaves
  the measurements that were recorded before it. The queue is flushed at the start and
  at the end, after the measurements are recorded; a flush that fails raises the error
  of the runtime.
\<close>

definition call ::
  "cl_env \<Rightarrow> KernelDriver \<Rightarrow> world \<Rightarrow> KernelPayload \<Rightarrow> (error + KernelPayload \<times> world) \<times> KernelDriver"
where
  "call env driver w payload =
     (if \<not> flush_ok env w then (Inl RuntimeError, driver)
      else
        (case deepcopy env payload w of
           Inl e \<Rightarrow> (Inl e, driver)
         | Inr (output, w1) \<Rightarrow>
             (case host_to_device env output w1 of
                Inl e \<Rightarrow> (Inl e, driver)
              | Inr (t1, w2) \<Rightarrow>
                  (if \<not> accepts_args env (kargs output) then (Inl E_BAD_ARGS, driver)
                   else
                     (case ndrange output of
                        [] \<Rightarrow> (Inl IndexError, driver)
                      | n0 # ns \<Rightarrow>
                          (let local_size_x = min n0 256 in
                           case enqueue w2 (Launch (kargs output) (ndrange output) local_size_x) of
                             (event, w3) \<Rightarrow>
                               (case kernel_exec env event (kargs output) (ndrange output)
                                       local_size_x (devmem w3) of
                                  None \<Rightarrow> (Inl RuntimeError, driver)
                                | Some mem \<Rightarrow>
                                    (case get_event_time env event of
                                       Inl e \<Rightarrow> (Inl e, driver)
                                     | Inr t2 \<Rightarrow>
                                         (case device_to_host env output (w3\<lparr>devmem := mem\<rparr>) of
                                            Inl e \<Rightarrow> (Inl e, driver)
                                          | Inr ((t3, output'), w4) \<Rightarrow>
                                              (let driver' =
                                                 driver\<lparr>wgsizes := wgsizes driver @ [local_size_x],
                                                        runtimes := runtimes driver @ [0 + t1 + t2 + t3],
                                                        transfers := transfers driver @ [transfersize payload]\<rparr>
                                               in if \<not> flush_ok env w4 then (Inl RuntimeError, driver')
                                                  else (Inr (output', w4), driver')))))))))))"

text \<open>The local function \<^verbatim>\<open>assert_constraint\<close> of \<^verbatim>\<open>validate\<close>.\<close>

definition assert_constraint :: "bool \<Rightarrow> error \<Rightarrow> error + unit" where
  "assert_constraint constraint err = (if constraint then Inr () else Inl err)"

text \<open>
  The comparison of two payloads followed by \<^verbatim>\<open>assert_constraint\<close>: first the
  comparison is evaluated, which may raise, then the constraint is asserted.
\<close>

definition asserting :: "error + bool \<Rightarrow> error \<Rightarrow> (error + unit) \<Rightarrow> error + unit" where
  "asserting comparison err continue =
     (case comparison of
        Inl e \<Rightarrow> Inl e
      | Inr constraint \<Rightarrow>
          (case assert_constraint constraint err of Inl e \<Rightarrow> Inl e | Inr u \<Rightarrow> continue))"

text \<open>
  The loop \<^verbatim>\<open>while B1in == A1in: B1in = KernelPayload.create_random(self, size)\<close> of
  \<^verbatim>\<open>validate\<close>, which need not end: \<open>None\<close> is the loop that runs forever.
\<close>

partial_function (option) regenerate ::
  "cl_env \<Rightarrow> KernelDriver \<Rightarrow> int \<Rightarrow> KernelPayload \<Rightarrow> KernelPayload \<Rightarrow> world \<Rightarrow>
   (error + KernelPayload \<times> world) option"
where
  "regenerate env driver sz A1in B1in w =
     (case payload_eq B1in A1in of
        Inl e \<Rightarrow> Some (Inl e)
      | Inr b \<Rightarrow>
          (if b then
             (case create_random env driver sz w of
                Inl e \<Rightarrow> Some (Inl e)
              | Inr (B1in', w') \<Rightarrow> regenerate env driver sz A1in B1in' w')
           else Some (Inr (B1in, w))))"

declare regenerate.simps [code]

text \<open>The first part of \<^verbatim>\<open>validate\<close>: the four input payloads.\<close>

definition validate_inputs ::
  "cl_env \<Rightarrow> KernelDriver \<Rightarrow> int \<Rightarrow> world \<Rightarrow>
   (error + (KernelPayload \<times> KernelPayload \<times> KernelPayload \<times> KernelPayload) \<times> world) option"
where
  "validate_inputs env driver sz w =
     (case create_sequential env driver sz w of
        Inl e \<Rightarrow> Some (Inl e)
      | Inr (A1in, w1) \<Rightarrow>
          (case deepcopy env A1in w1 of
             Inl e \<Rightarrow> Some (Inl e)
           | Inr (A2in, w2) \<Rightarrow>
               (case create_random env driver sz w2 of
                  Inl e \<Rightarrow> Some (Inl e)
                | Inr (B1in0, w3) \<Rightarrow>
                    (case regenerate env driver sz A1in B1in0 w3 of
                       None \<Rightarrow> None
                     | Some (Inl e) \<Rightarrow> Some (Inl e)
                     | Some (Inr (B1in, w4)) \<Rightarrow>
                         (case deepcopy env B1in w4 of
                            Inl e \<Rightarrow> Some (Inl e)
                          | Inr (B2in, w5) \<Rightarrow> Some (Inr ((A1in, A2in, B1in, B2in), w5)))))))"

text \<open>The four runs of the kernel in \<^verbatim>\<open>validate\<close>, in the order of the source.\<close>

definition validate_runs ::
  "cl_env \<Rightarrow> KernelDriver \<Rightarrow> world \<Rightarrow> KernelPayload \<Rightarrow> KernelPayload \<Rightarrow> KernelPayload \<Rightarrow>
   KernelPayload \<Rightarrow>
   (error + (KernelPayload \<times> KernelPayload \<times> KernelPayload \<times> KernelPayload) \<times> world) \<times> KernelDriver"
where
  "validate_runs env driver w A1in B1in A2in B2in =
     (case call env driver w A1in of
        (Inl e, d1) \<Rightarrow> (Inl e, d1)
      | (Inr (A1out, w1), d1) \<Rightarrow>
          (case call env d1 w1 B1in of
             (Inl e, d2) \<Rightarrow> (Inl e, d2)
           | (Inr (B1out, w2), d2) \<Rightarrow>
               (case call env d2 w2 A2in of
                  (Inl e, d3) \<Rightarrow> (Inl e, d3)
                | (Inr (A2out, w3), d3) \<Rightarrow>
                    (case call env d3 w3 B2in of
                       (Inl e, d4) \<Rightarrow> (Inl e, d4)
                     | (Inr (B2out, w4), d4) \<Rightarrow>
                         (Inr ((A1out, B1out, A2out, B2out), w4), d4)))))"

text \<open>
  The assertions on the outputs at the end of \<^verbatim>\<open>validate\<close>, in the order of the
  source.
\<close>

definition validate_outputs ::
  "KernelDriver \<Rightarrow> KernelPayload \<Rightarrow> KernelPayload \<Rightarrow> KernelPayload \<Rightarrow> KernelPayload \<Rightarrow>
   KernelPayload \<Rightarrow> KernelPayload \<Rightarrow> error + unit"
where
  "validate_outputs driver A1in B1in A1out B1out A2out B2out =
     asserting (payload_ne A1in A1out) E_NO_OUTPUTS
      (asserting (payload_ne B1in B1out) E_NO_OUTPUTS
        (asserting (payload_eq A1out A2out) E_NONDETERMINISTIC
          (asserting (payload_eq B1out B2out) E_NONDETERMINISTIC
            (if list_ex (\<lambda>x. \<not> is_const x) (prototype driver)
             then asserting (payload_ne A1out B1out) E_INPUT_INSENSITIVE (Inr ())
             else Inr ()))))"

text \<open>
  \<^verbatim>\<open>KernelDriver.validate\<close>: the inputs, the constraints on the inputs, the four runs and
  the assertions on the outputs. The result is \<open>None\<close> when the loop that draws \<open>B1in\<close>
  runs forever, and else the exception raised (or the state, when none is raised) and the
  driver with its measurements.
\<close>

definition validate ::
  "cl_env \<Rightarrow> KernelDriver \<Rightarrow> int \<Rightarrow> world \<Rightarrow> ((error + world) \<times> KernelDriver) option"
where
  "validate env driver sz w =
     (case validate_inputs env driver sz w of
        None \<Rightarrow> None
      | Some (Inl e) \<Rightarrow> Some (Inl e, driver)
      | Some (Inr ((A1in, A2in, B1in, B2in), w1)) \<Rightarrow>
          (case asserting (payload_eq A1in A2in) E_BAD_DRIVER
                  (asserting (payload_eq B1in B2in) E_BAD_DRIVER (Inr ())) of
             Inl e \<Rightarrow> Some (Inl e, driver)
           | Inr u \<Rightarrow>
               (case validate_runs env driver w1 A1in B1in A2in B2in of
                  (Inl e, d') \<Rightarrow> Some (Inl e, d')
                | (Inr ((A1out, B1out, A2out, B2out), w2), d') \<Rightarrow>
                    (case validate_outputs driver A1in B1in A1out B1out A2out B2out of
                       Inl e \<Rightarrow> Some (Inl e, d')
                     | Inr u \<Rightarrow> Some (Inr w2, d')))))"

section \<open>Auxiliary notions for the proofs\<close>

text \<open>The order in which the scan makes progress: first the anchor, then the trial end.\<close>

definition scan_order :: "'c list \<Rightarrow> (scan_state \<times> scan_state) set" where
  "scan_order text =
     inv_image (less_than <*lex*> less_than)
       (\<lambda>(i, j, indices). (length text - i, length text + 1 - j))"

text \<open>
  The extension test in the words of the specification: \<open>j \<le> len(text)\<close> and some
  multi-character atom for this head is a proper prefix of \<^verbatim>\<open>text[i:j]\<close>.
\<close>

definition spec_extends :: "'c list list \<Rightarrow> 'c list \<Rightarrow> nat \<Rightarrow> nat \<Rightarrow> bool" where
  "spec_extends cands text i j \<longleftrightarrow>
     j \<le> length text \<and> (\<exists>x \<in> set cands. strict_prefix x (slice text i j))"

text \<open>
  Longest-match tokenization in the words of the specification: at each position the
  longest multi-character atom that the rest of the text starts with is emitted, and the
  single character when there is none. \<open>ms\<close> lists the atoms of the vocabulary.
\<close>

definition matches :: "'c list list \<Rightarrow> 'c list \<Rightarrow> 'c list list" where
  "matches ms rest = filter (\<lambda>a. 1 < length a \<and> prefix a rest) ms"

definition longest :: "'c list list \<Rightarrow> 'c list" where
  "longest xs = foldr (\<lambda>a b. if length b < length a then a else b) xs []"

function greedy_tokens :: "'c list list \<Rightarrow> 'c list \<Rightarrow> 'c list list" where
  "greedy_tokens ms [] = []"
| "greedy_tokens ms (c # cs) =
     (let a = longest (matches ms (c # cs)) in
      if a = [] then [c] # greedy_tokens ms cs
      else a # greedy_tokens ms (drop (length a) (c # cs)))"
  by pat_completeness auto
termination
  by (relation "measure (\<lambda>(ms, rest). length rest)") (auto simp: Suc_lessI)

text \<open>The indices of a list of atoms, appended to \<open>indices\<close>; a missing atom raises.\<close>

fun encode :: "('c, 'z) atomizer_scheme \<Rightarrow> int list \<Rightarrow> 'c list list \<Rightarrow> error + int list" where
  "encode A indices [] = Inr indices"
| "encode A indices (t # ts) =
     (case map_of (vocab A) t of
        None \<Rightarrow> Inl KeyError
      | Some x \<Rightarrow> encode A (indices @ [x]) ts)"

text \<open>
  The contribution of one argument to the transfer size, in the words of the
  specification: the bytes of the host buffer for a const pointer to global memory, twice
  the bytes for a non-const one, nothing for a local pointer or a scalar.
\<close>

definition transfer_contribution :: "KernelArg \<Rightarrow> int" where
  "transfer_contribution a =
     (if is_pointer a \<and> \<not> is_local a then
        (case hostdata a of
           None \<Rightarrow> 0
         | Some h \<Rightarrow> (if is_const a then nbytes h else 2 * nbytes h))
      else 0)"

text \<open>
  A sequence of calls of a driver, each with the state and the payload it is given; the
  result is the driver after the calls and the number of calls that returned.
\<close>

fun run_calls :: "cl_env \<Rightarrow> KernelDriver \<Rightarrow> (world \<times> KernelPayload) list \<Rightarrow> KernelDriver \<times> nat" where
  "run_calls env d [] = (d, 0)"
| "run_calls env d ((w, p) # rest) =
     (case call env d w p of
        (Inl e, d') \<Rightarrow> run_calls env d' rest
      | (Inr out, d') \<Rightarrow> (case run_calls env d' rest of (d'', n) \<Rightarrow> (d'', n + 1)))"

subsection \<open>A concrete kernel\<close>

text \<open>
  Three argument descriptors (a pointer to global memory, a pointer to local memory, a
  const scalar), an environment whose kernel leaves the device memory as it is and whose
  events all take 3 ms, and the sequential payload of size 16 for the three arguments.
\<close>

definition float_ptr :: KernelArg where
  "float_ptr = \<lparr>arg_string = ''__global float* a'', is_pointer = True, is_local = False,
     is_const = False, vector_width = 1, numpy_type = F32, hostdata = None, devdata = None,
     bufsize = None, flags = None\<rparr>"

definition local_ptr :: KernelArg where
  "local_ptr = \<lparr>arg_string = ''__local int* c'', is_pointer = True, is_local = True,
     is_const = False, vector_width = 1, numpy_type = I32, hostdata = None, devdata = None,
     bufsize = None, flags = None\<rparr>"

definition const_int :: KernelArg where
  "const_int = \<lparr>arg_string = ''const int n'', is_pointer = False, is_local = False,
     is_const = True, vector_width = 1, numpy_type = I32, hostdata = None, devdata = None,
     bufsize = None, flags = None\<rparr>"

definition env0 :: "KernelArg list \<Rightarrow> cl_env" where
  "env0 proto = \<lparr>astype_elem = (\<lambda>d x. x), random_elem = (\<lambda>k i. 1 / 2),
     buffer_ok = (\<lambda>n. 0 < n), event_ms = (\<lambda>e. Some 3),
     accepts_args = (\<lambda>ka. True), kernel_exec = (\<lambda>e ka nd l mem. Some mem),
     compile = (\<lambda>s. Some [0]), function_name = (\<lambda>k. ''A''),
     prototype_args = (\<lambda>s. proto), flush_ok = (\<lambda>w. True)\<rparr>"

text \<open>The same environment with a queue that can be flushed only while it is empty.\<close>

definition env_flush :: "KernelArg list \<Rightarrow> cl_env" where
  "env_flush proto = (env0 proto)\<lparr>flush_ok := (\<lambda>w. enqueued w = [])\<rparr>"

definition world0 :: world where
  "world0 = \<lparr>next_id = 0, devmem = [], enqueued = [], draws = 0\<rparr>"

definition driver0 :: "KernelArg list \<Rightarrow> KernelDriver" where
  "driver0 proto = \<lparr>driver_ctx = 0, src = ''kernel'', program = [0], prototype = proto,
     kernel = 0, name = ''A'', wgsizes = [], transfers = [], runtimes = []\<rparr>"

definition payload16 :: KernelPayload where
  "payload16 = fst (projr (create_sequential (env0 [float_ptr, local_ptr, const_int])
     (driver0 [float_ptr, local_ptr, const_int]) 16 world0))"

definition world16 :: world where
  "world16 = snd (projr (create_sequential (env0 [float_ptr, local_ptr, const_int])
     (driver0 [float_ptr, local_ptr, const_int]) 16 world0))"

definition calls3 :: "(world \<times> KernelPayload) list" where
  "calls3 = [(world16, payload16), (world0, payload16), (world16, payload16)]"

definition driver3 :: KernelDriver where
  "driver3 = fst (run_calls (env0 [float_ptr, local_ptr, const_int])
     (driver0 [float_ptr, local_ptr, const_int]) calls3)"

text \<open>
  The validation of the kernel with the single argument \<^verbatim>\<open>__global float* a\<close> at size 2:
  its four inputs, its four runs and their outputs.
\<close>

definition inputs1 :: "(KernelPayload \<times> KernelPayload \<times> KernelPayload \<times> KernelPayload) \<times> world" where
  "inputs1 = projr (the (validate_inputs (env0 [float_ptr]) (driver0 [float_ptr]) 2 world0))"

definition A1in1 :: KernelPayload where "A1in1 = fst (fst inputs1)"
definition A2in1 :: KernelPayload where "A2in1 = fst (snd (fst inputs1))"
definition B1in1 :: KernelPayload where "B1in1 = fst (snd (snd (fst inputs1)))"
definition B2in1 :: KernelPayload where "B2in1 = snd (snd (snd (fst inputs1)))"

definition runs1 ::
  "(error + (KernelPayload \<times> KernelPayload \<times> KernelPayload \<times> KernelPayload) \<times> world) \<times> KernelDriver" where
  "runs1 = validate_runs (env0 [float_ptr]) (driver0 [float_ptr]) (snd inputs1) A1in1 B1in1 A2in1 B2in1"

definition A1out1 :: KernelPayload where "A1out1 = fst (fst (projr (fst runs1)))"
definition B1out1 :: KernelPayload where "B1out1 = fst (snd (fst (projr (fst runs1))))"
definition A2out1 :: KernelPayload where "A2out1 = fst (snd (snd (fst (projr (fst runs1)))))"
definition B2out1 :: KernelPayload where "B2out1 = snd (snd (snd (fst (projr (fst runs1)))))"

text \<open>The list \<^verbatim>\<open>count_pairs\<close> of \<^verbatim>\<open>CharacterAtomizer.from_text\<close>.\<close>

definition count_pairs :: "'c list \<Rightarrow> ('c \<times> int) list" where
  "count_pairs text = sort_key (\<lambda>x. - snd x) (Counter text)"

text \<open>The decoder is a left inverse of the vocabulary.\<close>

definition inverts :: "('c, 'z) atomizer_scheme \<Rightarrow> bool" where
  "inverts A \<longleftrightarrow> (\<forall>a x. map_of (vocab A) a = Some x \<longrightarrow> map_of (decoder A) x = Some a)"

section \<open>Termination of the greedy scan\<close>

lemma shrink_rec:
  "i + 1 < j \<Longrightarrow> slice text i j \<notin> set cands \<Longrightarrow>
   shrink A text cands (i, j, indices) = shrink A text cands (i, j - 1, indices)"
  by (subst shrink.simps) simp

lemma shrink_match:
  "i + 1 < j \<Longrightarrow> slice text i j \<in> set cands \<Longrightarrow>
   shrink A text cands (i, j, indices) =
     (case map_of (vocab A) (slice text i j) of
        None \<Rightarrow> Inl KeyError
      | Some v \<Rightarrow> Inr (j, j + 2, indices @ [v]))"
  by (subst shrink.simps) simp

lemma shrink_exhaust:
  "j \<le> i + 1 \<Longrightarrow>
   shrink A text cands (i, j, indices) =
     (case map_of (vocab A) [text ! i] of
        None \<Rightarrow> Inl KeyError
      | Some v \<Rightarrow> Inr (i + 1, j + 2, indices @ [v]))"
  by (subst shrink.simps) simp

lemma shrink_advances_aux:
  "shrink A text cands s = Inr s' \<Longrightarrow> fst s < fst s'"
proof (induction A "text" cands s arbitrary: s' rule: shrink.induct)
  case (1 A "text" cands i j indices)
  consider (rec) "i + 1 < j" "slice text i j \<notin> set cands"
    | (match) "i + 1 < j" "slice text i j \<in> set cands"
    | (exhaust) "j \<le> i + 1"
    by linarith
  then show ?case
  proof cases
    case rec
    then have "fst (i, j - 1, indices) < fst s'"
      using "1.IH" "1.prems" by (simp add: shrink_rec)
    then show ?thesis by simp
  next
    case match
    then show ?thesis
      using "1.prems" by (auto simp: shrink_match split: option.splits)
  next
    case exhaust
    then show ?thesis
      using "1.prems" by (auto simp: shrink_exhaust split: option.splits)
  qed
qed

lemma shrink_advances:
  "shrink A text cands (i, j, indices) = Inr (i', j', indices') \<Longrightarrow> i < i'"
  using shrink_advances_aux by fastforce

lemma step_progress:
  assumes "step A text (i, j, indices) = Inr (i', j', indices')"
  shows "i < i' \<or> (i' = i \<and> j' = j + 1 \<and> j \<le> length text)"
  using assms
  by (auto simp: step_def split: option.splits list.splits if_splits dest: shrink_advances)

lemma wf_scan_order: "wf (scan_order text)"
  unfolding scan_order_def by (intro wf_inv_image wf_lex_prod wf_less_than)

lemma scan_order_iff:
  "((i', j', indices'), (i, j, indices)) \<in> scan_order text \<longleftrightarrow>
     length text - i' < length text - i \<or>
     (length text - i' = length text - i \<and> length text + 1 - j' < length text + 1 - j)"
  by (simp add: scan_order_def)

lemma atomize_loop_total: "\<exists>r. atomize_loop A text s = Some r"
proof (induction s rule: wf_induct_rule [OF wf_scan_order [of "text"]])
  case (1 s)
  obtain i j indices where s: "s = (i, j, indices)"
    by (cases s)
  show ?case
  proof (cases "i < length text")
    case False
    then show ?thesis
      by (subst atomize_loop.simps) (simp add: s)
  next
    case True
    show ?thesis
    proof (cases "step A text s")
      case (Inl e)
      then show ?thesis
        using True by (subst atomize_loop.simps) (simp add: s)
    next
      case (Inr s')
      obtain i' j' indices' where s': "s' = (i', j', indices')"
        by (cases s')
      from step_progress [OF Inr [unfolded s s']] True
      have "length text - i' < length text - i \<or>
            (length text - i' = length text - i \<and> length text + 1 - j' < length text + 1 - j)"
        by arith
      then have "(s', s) \<in> scan_order text"
        unfolding s s' scan_order_iff .
      from "1.IH" [OF this] obtain r where "atomize_loop A text s' = Some r" ..
      then show ?thesis
        using True Inr by (subst atomize_loop.simps) (simp add: s)
    qed
  qed
qed

text \<open>
  C10: \<^verbatim>\<open>GreedyAtomizer.atomize\<close> terminates on every text, for every vocabulary: the
  scan returns a result (a list of indices or an exception), it never runs forever.
\<close>

theorem atomize_terminates: "\<exists>r. atomize (GreedyAtomizer v) text = Some r"
proof -
  obtain r where "atomize_loop (GreedyAtomizer v) text (0, 2, []) = Some r"
    using atomize_loop_total by blast
  then show ?thesis
    by (cases r) (simp_all add: atomize_def)
qed

section \<open>Dictionaries and decoding\<close>

lemma map_of_foldl_update:
  "map_of (foldl (\<lambda>d (k, v). AList.update k v d) d ps) x =
     (case map_of (rev ps) x of None \<Rightarrow> map_of d x | Some y \<Rightarrow> Some y)"
proof (induction ps arbitrary: d)
  case Nil
  show ?case by simp
next
  case (Cons p ps)
  obtain k v where p: "p = (k, v)" by (cases p)
  show ?case
    by (auto simp: Cons.IH p update_conv' map_add_def split: option.splits)
qed

lemma map_of_dict: "map_of (dict ps) = map_of (rev ps)"
  by (rule ext) (simp add: dict_def map_of_foldl_update split: option.splits)

lemma decoder_inverse:
  assumes "distinct (map snd v)" and "map_of v a = Some x"
  shows "map_of (dict (map (\<lambda>(key, val). (val, key)) v)) x = Some a"
proof -
  let ?sw = "map (\<lambda>(key, val). (val, key)) v"
  have fst_sw: "map fst (rev ?sw) = rev (map snd v)"
    by (induction v) auto
  have "(a, x) \<in> set v"
    using assms(2) by (rule map_of_SomeD)
  then have "(x, a) \<in> set (rev ?sw)"
    by force
  moreover have "distinct (map fst (rev ?sw))"
    unfolding fst_sw using assms(1) by simp
  ultimately show ?thesis
    unfolding map_of_dict by (rule map_of_is_SomeI [rotated])
qed

lemma decode_all_snoc:
  "decode_all d (xs @ [x]) =
     (case decode_all d xs of
        Inl e \<Rightarrow> Inl e
      | Inr as \<Rightarrow> (case map_of d x of None \<Rightarrow> Inl KeyError | Some a \<Rightarrow> Inr (as @ [a])))"
  by (induction xs) (auto split: option.splits sum.splits)

section \<open>An induction rule for the scan\<close>

lemma atomize_loop_induct:
  assumes "\<And>s. (\<And>s'. fst s < length text \<Longrightarrow> step A text s = Inr s' \<Longrightarrow> P s') \<Longrightarrow> P s"
  shows "P s"
proof (induction s rule: wf_induct_rule [OF wf_scan_order [of "text"]])
  case (1 s)
  show ?case
  proof (rule assms)
    fix s'
    assume lt: "fst s < length text" and st: "step A text s = Inr s'"
    obtain i j indices where s: "s = (i, j, indices)" by (cases s)
    obtain i' j' indices' where s': "s' = (i', j', indices')" by (cases s')
    from step_progress [OF st [unfolded s s']] lt
    have "length text - i' < length text - i \<or>
          (length text - i' = length text - i \<and> length text + 1 - j' < length text + 1 - j)"
      unfolding s by simp arith
    then have "(s', s) \<in> scan_order text"
      unfolding s s' scan_order_iff .
    then show "P s'" by (rule "1.IH")
  qed
qed


section \<open>Decoding what the scan emits\<close>

lemma deatomize_snoc:
  "deatomize A indices = Inr t \<Longrightarrow> map_of (decoder A) v = Some a \<Longrightarrow>
   deatomize A (indices @ [v]) = Inr (t @ a)"
  by (auto simp: deatomize_def decode_all_snoc split: sum.splits)

lemma take_slice: "i \<le> j \<Longrightarrow> take i text @ slice text i j = take j text"
proof -
  assume "i \<le> j"
  then have "take i (take j text) = take i text"
    by (simp add: min_absorb1)
  with append_take_drop_id [of i "take j text"] show ?thesis
    unfolding slice_def by simp
qed

lemma shrink_decodes:
  assumes "inverts A" and "i < length text"
    and "deatomize A indices = Inr (take i text)"
    and "shrink A text cands (i, j, indices) = Inr (i', j', indices')"
  shows "deatomize A indices' = Inr (take i' text)"
  using assms(4)
proof (induction j arbitrary: i' j' indices' rule: less_induct)
  case (less j)
  consider (rec) "i + 1 < j" "slice text i j \<notin> set cands"
    | (match) "i + 1 < j" "slice text i j \<in> set cands"
    | (exhaust) "j \<le> i + 1"
    by linarith
  then show ?case
  proof cases
    case rec
    then have "shrink A text cands (i, j - 1, indices) = Inr (i', j', indices')"
      using less.prems by (simp add: shrink_rec)
    moreover have "j - 1 < j" using rec by simp
    ultimately show ?thesis by (rule less.IH [rotated])
  next
    case match
    then obtain v where v: "map_of (vocab A) (slice text i j) = Some v"
      and out: "i' = j" "indices' = indices @ [v]"
      using less.prems by (auto simp: shrink_match split: option.splits)
    from v assms(1) have "map_of (decoder A) v = Some (slice text i j)"
      by (simp add: inverts_def)
    from deatomize_snoc [OF assms(3) this] show ?thesis
      using match(1) by (simp add: out take_slice)
  next
    case exhaust
    then obtain v where v: "map_of (vocab A) [text ! i] = Some v"
      and out: "i' = i + 1" "indices' = indices @ [v]"
      using less.prems by (auto simp: shrink_exhaust split: option.splits)
    from v assms(1) have "map_of (decoder A) v = Some [text ! i]"
      by (simp add: inverts_def)
    from deatomize_snoc [OF assms(3) this] show ?thesis
      using assms(2) by (simp add: out take_Suc_conv_app_nth)
  qed
qed

lemma step_decodes:
  assumes "inverts A" and "i < length text"
    and "deatomize A indices = Inr (take i text)"
    and "step A text (i, j, indices) = Inr (i', j', indices')"
  shows "deatomize A indices' = Inr (take i' text)"
proof (cases "\<exists>c cs. map_of (lookup A) (text ! i) = Some (c # cs)")
  case True
  then obtain c cs where lk: "map_of (lookup A) (text ! i) = Some (c # cs)"
    by blast
  show ?thesis
  proof (cases "j \<le> length text \<and> (\<exists>x \<in> set (c # cs). prefix (slice text i j) x)")
    case True
    then have "step A text (i, j, indices) = Inr (i, j + 1, indices)"
      unfolding step_def by (simp add: lk)
    then show ?thesis
      using assms(3,4) by simp
  next
    case False
    then have "step A text (i, j, indices) = shrink A text (c # cs) (i, j, indices)"
      unfolding step_def by (auto simp add: lk)
    with assms(4) have "shrink A text (c # cs) (i, j, indices) = Inr (i', j', indices')"
      by simp
    then show ?thesis
      by (rule shrink_decodes [OF assms(1,2,3)])
  qed
next
  case False
  then obtain v where v: "map_of (vocab A) [text ! i] = Some v"
    and out: "i' = i + 1" "indices' = indices @ [v]"
    using assms(4) by (auto simp: step_def split: option.splits list.splits)
  from v assms(1) have "map_of (decoder A) v = Some [text ! i]"
    by (simp add: inverts_def)
  from deatomize_snoc [OF assms(3) this] show ?thesis
    using assms(2) by (simp add: out take_Suc_conv_app_nth)
qed

lemma atomize_loop_decodes:
  assumes "inverts A"
  shows "deatomize A (snd (snd s)) = Inr (take (fst s) text) \<Longrightarrow>
         atomize_loop A text s = Some (Inr out) \<Longrightarrow> deatomize A out = Inr text"
proof (induction s rule: atomize_loop_induct [of "text" A])
  case (1 s)
  obtain i j indices where s: "s = (i, j, indices)" by (cases s)
  show ?case
  proof (cases "i < length text")
    case False
    then have "atomize_loop A text s = Some (Inr indices)"
      by (subst atomize_loop.simps) (simp add: s)
    then show ?thesis
      using "1.prems" False by (simp add: s)
  next
    case True
    then have unfold: "atomize_loop A text s =
        (case step A text s of Inl e \<Rightarrow> Some (Inl e) | Inr s' \<Rightarrow> atomize_loop A text s')"
      by (subst atomize_loop.simps) (simp add: s)
    then obtain s' where st: "step A text s = Inr s'" and loop: "atomize_loop A text s' = Some (Inr out)"
      using "1.prems"(2) by (auto split: sum.splits)
    obtain i' j' indices' where s': "s' = (i', j', indices')" by (cases s')
    have "deatomize A indices' = Inr (take i' text)"
      using step_decodes [OF assms True _ st [unfolded s s']] "1.prems"(1) by (simp add: s)
    then show ?thesis
      using "1.IH" [OF _ st _ loop] True by (simp add: s s')
  qed
qed

lemma inverts_GreedyAtomizer: "distinct (map snd v) \<Longrightarrow> inverts (GreedyAtomizer v)"
  by (simp add: inverts_def GreedyAtomizer_def decoder_inverse)

section \<open>The extension phase of the scan\<close>

lemma map_of_dict_keys:
  "map_of (dict (map (\<lambda>c. (c, f c)) cs)) c = (if c \<in> set cs then Some (f c) else None)"
  by (simp add: map_of_dict rev_map map_of_map_restrict restrict_map_def)

lemma head_atoms_nonempty: "head_atoms v c \<noteq> [] \<longleftrightarrow> c \<in> set (first_chars v)"
  by (auto simp: head_atoms_def first_chars_def filter_empty_conv)

lemma lookup_GreedyAtomizer:
  "map_of (lookup (GreedyAtomizer v)) c =
     (if head_atoms v c \<noteq> [] then Some (head_atoms v c) else None)"
  by (simp add: GreedyAtomizer_def map_of_dict_keys head_atoms_nonempty)

lemma step_head:
  assumes "head_atoms v (text ! i) \<noteq> []"
  shows "step (GreedyAtomizer v) text (i, j, indices) =
     (if j \<le> length text \<and> (\<exists>x \<in> set (head_atoms v (text ! i)). prefix (slice text i j) x)
      then Inr (i, j + 1, indices)
      else shrink (GreedyAtomizer v) text (head_atoms v (text ! i)) (i, j, indices))"
proof -
  obtain c cs where "head_atoms v (text ! i) = c # cs"
    using assms by (cases "head_atoms v (text ! i)") auto
  then show ?thesis
    by (auto simp: step_def lookup_GreedyAtomizer)
qed

text \<open>
  C2 as the specification words it fails: with the single atom \<^verbatim>\<open>ab\<close> and the text
  \<^verbatim>\<open>ab\<close>, at \<open>i = 0\<close>, \<open>j = 2\<close> the code advances \<open>j\<close> to 3, although no atom is a proper
  prefix of \<^verbatim>\<open>text[0:2]\<close>.
\<close>

theorem step_extends_counterexample:
  "0 < length ''ab'' \<and> head_atoms [(''ab'', 0)] (''ab'' ! 0) \<noteq> [] \<and>
   step (GreedyAtomizer [(''ab'', 0)]) ''ab'' (0, 2, []) = Inr (0, 3, []) \<and>
   \<not> spec_extends (head_atoms [(''ab'', 0)] (''ab'' ! 0)) ''ab'' 0 2"
  by code_simp

text \<open>
  C2, amended: whenever \<^verbatim>\<open>text[i]\<close> heads at least one multi-character atom, one pass
  of the loop advances \<open>j\<close> by 1 (leaving \<open>i\<close> and the indices alone) exactly when
  \<open>j \<le> len(text)\<close> and \<^verbatim>\<open>text[i:j]\<close> is a prefix (possibly the whole) of some
  multi-character atom for this head; in every other case the pass is the longest-first
  shrink phase.
\<close>

theorem step_extends_iff:
  assumes "i < length text" and "head_atoms v (text ! i) \<noteq> []"
  shows "(step (GreedyAtomizer v) text (i, j, indices) = Inr (i, j + 1, indices) \<longleftrightarrow>
          j \<le> length text \<and> (\<exists>x \<in> set (head_atoms v (text ! i)). prefix (slice text i j) x)) \<and>
         (step (GreedyAtomizer v) text (i, j, indices) \<noteq> Inr (i, j + 1, indices) \<longrightarrow>
          step (GreedyAtomizer v) text (i, j, indices) =
            shrink (GreedyAtomizer v) text (head_atoms v (text ! i)) (i, j, indices))"
proof -
  have "shrink (GreedyAtomizer v) text (head_atoms v (text ! i)) (i, j, indices) \<noteq> Inr (i, j + 1, indices)"
    using shrink_advances [of "GreedyAtomizer v" "text" _ i j indices i "j + 1" indices] by auto
  then show ?thesis
    unfolding step_head [OF assms(2)] by auto
qed

theorem step_extends_iff_witness:
  "0 < length ''ab'' \<and> head_atoms [(''ab'', 0)] (''ab'' ! 0) \<noteq> [] \<and>
   step (GreedyAtomizer [(''ab'', 0)]) ''ab'' (0, 2, []) = Inr (0, 2 + 1, [])"
proof -
  have h1: "0 < length ''ab''"
    by simp
  have h2: "head_atoms [(''ab'', 0)] (''ab'' ! 0) \<noteq> []"
    by code_simp
  have h3: "2 \<le> length ''ab'' \<and>
      (\<exists>x \<in> set (head_atoms [(''ab'', 0)] (''ab'' ! 0)). prefix (slice ''ab'' 0 2) x)"
    by code_simp
  from step_extends_iff [OF h1 h2, of 2 "[]"] h3
  have "step (GreedyAtomizer [(''ab'', 0)]) ''ab'' (0, 2, []) = Inr (0, 2 + 1, [])"
    by blast
  with h1 h2 show ?thesis
    by blast
qed

section \<open>The scan emits the longest match\<close>

lemma slice_eq_take_drop: "slice text i k = take (k - i) (drop i text)"
  by (simp add: slice_def drop_take)

lemma prefix_slice: "prefix (slice text i k) (drop i text)"
  by (simp add: slice_eq_take_drop take_is_prefix)

lemma slice_of_prefix:
  assumes "prefix b (drop i text)"
  shows "slice text i (i + length b) = b"
proof -
  from assms obtain r where "drop i text = b @ r"
    by (auto simp: prefix_def)
  then show ?thesis
    by (simp add: slice_eq_take_drop)
qed

lemma prefix_length_bound:
  assumes "prefix b (drop i text)" and "b \<noteq> []"
  shows "i + length b \<le> length text"
proof -
  from assms(1) have "length b \<le> length (drop i text)"
    by (rule prefix_length_le)
  moreover from assms have "drop i text \<noteq> []"
    by auto
  ultimately show ?thesis
    by simp
qed

lemma shrink_cases:
  obtains (single) j' where
      "\<forall>k. i + 1 < k \<and> k \<le> j \<longrightarrow> slice text i k \<notin> set cands"
      "shrink A text cands (i, j, indices) =
         (case map_of (vocab A) [text ! i] of
            None \<Rightarrow> Inl KeyError
          | Some x \<Rightarrow> Inr (i + 1, j', indices @ [x]))"
    | (multi) k where
      "i + 1 < k" "k \<le> j" "slice text i k \<in> set cands"
      "\<forall>k'. k < k' \<and> k' \<le> j \<longrightarrow> slice text i k' \<notin> set cands"
      "shrink A text cands (i, j, indices) =
         (case map_of (vocab A) (slice text i k) of
            None \<Rightarrow> Inl KeyError
          | Some x \<Rightarrow> Inr (k, k + 2, indices @ [x]))"
proof (induction j arbitrary: thesis rule: less_induct)
  case (less j)
  consider (rec) "i + 1 < j" "slice text i j \<notin> set cands"
    | (match) "i + 1 < j" "slice text i j \<in> set cands"
    | (exhaust) "j \<le> i + 1"
    by linarith
  then show ?case
  proof cases
    case exhaust
    show ?thesis
    proof (rule less.prems(1) [of "j + 2"])
      show "\<forall>k. i + 1 < k \<and> k \<le> j \<longrightarrow> slice text i k \<notin> set cands"
        using exhaust by auto
      show "shrink A text cands (i, j, indices) =
         (case map_of (vocab A) [text ! i] of
            None \<Rightarrow> Inl KeyError
          | Some x \<Rightarrow> Inr (i + 1, j + 2, indices @ [x]))"
        using exhaust by (simp only: shrink_exhaust)
    qed
  next
    case match
    show ?thesis
    proof (rule less.prems(2) [of j])
      show "shrink A text cands (i, j, indices) =
         (case map_of (vocab A) (slice text i j) of
            None \<Rightarrow> Inl KeyError
          | Some x \<Rightarrow> Inr (j, j + 2, indices @ [x]))"
        using match by (simp add: shrink_match)
    qed (use match in auto)
  next
    case rec
    have eq: "shrink A text cands (i, j, indices) = shrink A text cands (i, j - 1, indices)"
      using rec by (simp add: shrink_rec)
    have lt: "j - 1 < j"
      using rec by simp
    have ext: "k \<le> j \<Longrightarrow> slice text i k \<in> set cands \<Longrightarrow> k \<le> j - 1" for k
      using rec(2) by (cases "k = j") auto
    show ?thesis
    proof (rule less.IH [OF lt])
      fix j'
      assume a: "\<forall>k. i + 1 < k \<and> k \<le> j - 1 \<longrightarrow> slice text i k \<notin> set cands"
        and b: "shrink A text cands (i, j - 1, indices) =
         (case map_of (vocab A) [text ! i] of
            None \<Rightarrow> Inl KeyError
          | Some x \<Rightarrow> Inr (i + 1, j', indices @ [x]))"
      show ?thesis
      proof (rule less.prems(1) [of j'])
        show "\<forall>k. i + 1 < k \<and> k \<le> j \<longrightarrow> slice text i k \<notin> set cands"
          using a ext by blast
        show "shrink A text cands (i, j, indices) =
         (case map_of (vocab A) [text ! i] of
            None \<Rightarrow> Inl KeyError
          | Some x \<Rightarrow> Inr (i + 1, j', indices @ [x]))"
          using b eq by simp
      qed
    next
      fix k
      assume a: "i + 1 < k" "k \<le> j - 1" "slice text i k \<in> set cands"
        "\<forall>k'. k < k' \<and> k' \<le> j - 1 \<longrightarrow> slice text i k' \<notin> set cands"
        and b: "shrink A text cands (i, j - 1, indices) =
         (case map_of (vocab A) (slice text i k) of
            None \<Rightarrow> Inl KeyError
          | Some x \<Rightarrow> Inr (k, k + 2, indices @ [x]))"
      show ?thesis
      proof (rule less.prems(2) [of k])
        show "\<forall>k'. k < k' \<and> k' \<le> j \<longrightarrow> slice text i k' \<notin> set cands"
          using a(4) ext by blast
        show "k \<le> j"
          using a(2) by simp
      qed (use a b eq in auto)
    qed
  qed
qed

lemma longest_max: "x \<in> set xs \<Longrightarrow> length x \<le> length (longest xs)"
  by (induction xs) (auto simp: longest_def)

lemma longest_in: "longest xs \<noteq> [] \<Longrightarrow> longest xs \<in> set xs"
  by (induction xs) (auto simp: longest_def)

lemma longest_Nil: "longest [] = []"
  by (simp add: longest_def)

lemma longest_unique:
  assumes "a \<in> set xs" and "a \<noteq> []"
    and "\<forall>b \<in> set xs. prefix b rest \<and> length b \<le> length a"
  shows "longest xs = a"
proof -
  have "length a \<le> length (longest xs)"
    using assms(1) by (rule longest_max)
  with assms(2) have "longest xs \<noteq> []"
    by auto
  then have "longest xs \<in> set xs"
    by (rule longest_in)
  with assms(3) have "prefix (longest xs) rest" "length (longest xs) \<le> length a"
    by auto
  moreover from assms(1,3) have "prefix a rest"
    by auto
  ultimately show ?thesis
    using \<open>length a \<le> length (longest xs)\<close>
    by (metis le_antisym prefix_length_prefix prefix_order.antisym)
qed

lemma set_head_atoms:
  "set (head_atoms v c) = {a \<in> fst ` set v. 1 < length a \<and> hd a = c}"
  by (auto simp: head_atoms_def multichars_def)

lemma set_matches:
  assumes "set ms = fst ` set v"
  shows "set (matches ms (c # cs)) = {a \<in> set (head_atoms v c). prefix a (c # cs)}"
proof -
  have "hd a = c" if "prefix a (c # cs)" "1 < length a" for a
    using that by (cases a) auto
  then show ?thesis
    using assms by (auto simp: matches_def set_head_atoms)
qed

lemma length_slice: "length (slice text i k) = min k (length text) - i"
  by (simp add: slice_def)

lemma drop_length_slice:
  assumes "i < k" and "i < length text"
  shows "drop (length (slice text i k)) (drop i text) = drop k text"
proof (cases "k \<le> length text")
  case True
  then show ?thesis
    using assms by (simp add: length_slice min_absorb1)
next
  case False
  then show ?thesis
    using assms by (simp add: length_slice min_absorb2)
qed

lemma extension_bound:
  assumes "\<not> (j \<le> length text \<and> (\<exists>x \<in> set cands. prefix (slice text i j) x))"
    and "b \<in> set cands" and "prefix b (drop i text)" and "b \<noteq> []"
  shows "i + length b \<le> j"
proof (rule ccontr)
  assume "\<not> i + length b \<le> j"
  then have lt: "j < i + length b"
    by simp
  moreover have "i + length b \<le> length text"
    using assms(3,4) by (rule prefix_length_bound)
  ultimately have "j \<le> length text"
    by simp
  moreover have "prefix (slice text i j) b"
  proof -
    from assms(3) obtain r where "drop i text = b @ r"
      by (auto simp: prefix_def)
    moreover have "j - i \<le> length b"
      using lt by simp
    ultimately have "slice text i j = take (j - i) b"
      by (simp add: slice_eq_take_drop)
    then show ?thesis
      by (simp add: take_is_prefix)
  qed
  ultimately show False
    using assms(1,2) by blast
qed

lemma atomize_loop_refines:
  assumes keys: "set ms = fst ` set v"
  shows "atomize_loop (GreedyAtomizer v) text s =
     Some (encode (GreedyAtomizer v) (snd (snd s)) (greedy_tokens ms (drop (fst s) text)))"
proof (induction s rule: atomize_loop_induct [of "text" "GreedyAtomizer v"])
  case (1 s)
  let ?A = "GreedyAtomizer v"
  obtain i j idx where s: "s = (i, j, idx)"
    by (cases s)
  show ?case
  proof (cases "i < length text")
    case False
    then have "atomize_loop ?A text s = Some (Inr idx)"
      by (subst atomize_loop.simps) (simp add: s)
    then show ?thesis
      using False by (simp add: s)
  next
    case True
    define c where "c = text ! i"
    define rest where "rest = drop i text"
    define cands where "cands = head_atoms v c"
    have rest: "rest = c # drop (Suc i) text"
      using True by (simp add: rest_def c_def Cons_nth_drop_Suc)
    have unfold: "atomize_loop ?A text s =
        (case step ?A text s of Inl e \<Rightarrow> Some (Inl e) | Inr s' \<Rightarrow> atomize_loop ?A text s')"
      using True by (subst atomize_loop.simps) (simp add: s)
    have IH: "atomize_loop ?A text s' =
        Some (encode ?A (snd (snd s')) (greedy_tokens ms (drop (fst s') text)))"
      if "step ?A text s = Inr s'" for s'
      using "1.IH" [OF _ that] True by (simp add: s)
    have emit: "atomize_loop ?A text s = Some (encode ?A idx (t # greedy_tokens ms (drop p text)))"
      if "step ?A text s =
           (case map_of (vocab ?A) t of
              None \<Rightarrow> Inl KeyError
            | Some x \<Rightarrow> Inr (p, q, idx @ [x]))" for t p q
    proof (cases "map_of (vocab ?A) t")
      case None
      with that show ?thesis
        by (simp add: unfold)
    next
      case (Some x)
      with that have "step ?A text s = Inr (p, q, idx @ [x])"
        by simp
      from IH [OF this] this show ?thesis
        by (simp add: unfold Some)
    qed
    have tok1: "greedy_tokens ms rest = [c] # greedy_tokens ms (drop (Suc i) text)"
      if "matches ms rest = []"
      using that unfolding rest by (simp add: longest_Nil)
    consider (nohead) "cands = []"
      | (ext) "cands \<noteq> []" "j \<le> length text \<and> (\<exists>x \<in> set cands. prefix (slice text i j) x)"
      | (shr) "cands \<noteq> []" "\<not> (j \<le> length text \<and> (\<exists>x \<in> set cands. prefix (slice text i j) x))"
      by blast
    then show ?thesis
    proof cases
      case nohead
      then have "step ?A text s =
          (case map_of (vocab ?A) [c] of
             None \<Rightarrow> Inl KeyError
           | Some x \<Rightarrow> Inr (i + 1, j + 2, idx @ [x]))"
        by (simp add: step_def s lookup_GreedyAtomizer cands_def c_def)
      from emit [OF this] have "atomize_loop ?A text s =
          Some (encode ?A idx ([c] # greedy_tokens ms (drop (i + 1) text)))" .
      moreover have "matches ms rest = []"
        using set_matches [OF keys, of c "drop (Suc i) text"] nohead
        by (simp add: rest cands_def)
      ultimately show ?thesis
        using tok1 by (simp add: s rest_def)
    next
      case ext
      then have "step ?A text s = Inr (i, j + 1, idx)"
        using step_head [of v "text" i j idx] by (simp add: s cands_def c_def)
      from IH [OF this] this show ?thesis
        unfolding unfold by (simp add: s)
    next
      case shr
      then have st: "step ?A text s = shrink ?A text cands (i, j, idx)"
        using step_head [of v "text" i j idx] by (auto simp: s cands_def c_def)
      have multi: "1 < length b" "hd b = c" if "b \<in> set cands" for b
        using that by (auto simp: cands_def set_head_atoms)
      have bound: "i + length b \<le> j" if "b \<in> set cands" "prefix b rest" for b
      proof (rule extension_bound [OF shr(2) that(1)])
        show "prefix b (drop i text)"
          using that(2) by (simp add: rest_def)
        show "b \<noteq> []"
          using multi(1) [OF that(1)] by auto
      qed
      have in_window: "i + 1 < i + length b \<and> i + length b \<le> j \<and>
          slice text i (i + length b) \<in> set cands \<and> i + length b \<le> length text"
        if "b \<in> set (matches ms rest)" for b
      proof -
        from that have b: "b \<in> set cands" "prefix b rest"
          using set_matches [OF keys, of c "drop (Suc i) text"] by (auto simp: rest cands_def)
        have "b \<noteq> []"
          using multi(1) [OF b(1)] by auto
        with b(2) have "i + length b \<le> length text"
          by (simp add: rest_def prefix_length_bound)
        moreover have "slice text i (i + length b) = b"
          using b(2) by (simp add: rest_def slice_of_prefix)
        ultimately show ?thesis
          using multi(1) [OF b(1)] bound [OF b] b(1) by simp
      qed
      show ?thesis
      proof (cases rule: shrink_cases [of i j "text" cands ?A idx])
        case (single j')
        have "matches ms rest = []"
        proof (rule ccontr)
          assume "matches ms rest \<noteq> []"
          then obtain b where "b \<in> set (matches ms rest)"
            by (cases "matches ms rest") auto
          from in_window [OF this] single(1) show False
            by blast
        qed
        then have "greedy_tokens ms rest = [c] # greedy_tokens ms (drop (i + 1) text)"
          using tok1 by simp
        moreover from emit [where t = "[text ! i]" and p = "i + 1" and q = j'] single(2) st
        have "atomize_loop ?A text s =
            Some (encode ?A idx ([c] # greedy_tokens ms (drop (i + 1) text)))"
          by (simp add: c_def)
        ultimately show ?thesis
          by (simp add: s rest_def)
      next
        case (multi k)
        define a where "a = slice text i k"
        have a_cand: "a \<in> set cands"
          using multi(3) by (simp add: a_def)
        have a_pre: "prefix a rest"
          by (simp add: a_def rest_def prefix_slice)
        have a_ne: "a \<noteq> []"
          using \<open>\<And>b. b \<in> set cands \<Longrightarrow> 1 < length b\<close> [OF a_cand] by auto
        have a_match: "a \<in> set (matches ms rest)"
          using set_matches [OF keys, of c "drop (Suc i) text"] a_cand a_pre
          by (simp add: rest cands_def)
        have a_len: "length a = min k (length text) - i"
          by (simp add: a_def length_slice)
        have "prefix b rest \<and> length b \<le> length a" if "b \<in> set (matches ms rest)" for b
        proof -
          from that have "prefix b rest"
            by (simp add: matches_def)
          moreover have "i + length b \<le> k"
            using in_window [OF that] multi(4) by (meson not_le)
          moreover have "i + length b \<le> length text"
            using in_window [OF that] by simp
          ultimately show ?thesis
            by (simp add: a_len)
        qed
        then have "longest (matches ms rest) = a"
          using longest_unique [OF a_match a_ne] by blast
        then have "greedy_tokens ms rest = a # greedy_tokens ms (drop (length a) rest)"
          using a_ne unfolding rest by (simp add: Let_def)
        moreover have "drop (length a) rest = drop k text"
          unfolding a_def rest_def using multi(1) True by (intro drop_length_slice) auto
        moreover from emit [where t = a and p = k and q = "k + 2"] multi(5) st
        have "atomize_loop ?A text s = Some (encode ?A idx (a # greedy_tokens ms (drop k text)))"
          by (simp add: a_def)
        ultimately show ?thesis
          by (simp add: s rest_def)
      qed
    qed
  qed
qed

section \<open>Dictionaries built from pairs\<close>

lemma set_update_subset: "set (AList.update k v al) \<subseteq> insert (k, v) (set al)"
  by (induction al) auto

lemma foldl_update_props:
  "distinct (map fst d) \<Longrightarrow>
   distinct (map fst (foldl (\<lambda>d (k, v). AList.update k v d) d ps)) \<and>
   set (foldl (\<lambda>d (k, v). AList.update k v d) d ps) \<subseteq> set d \<union> set ps"
proof (induction ps arbitrary: d)
  case Nil
  then show ?case by simp
next
  case (Cons p ps)
  obtain k v where p: "p = (k, v)" by (cases p)
  have "distinct (map fst (AList.update k v d))"
    using Cons.prems by (rule distinct_update)
  from Cons.IH [OF this] set_update_subset [of k v d] show ?case
    by (auto simp: p)
qed

lemma distinct_keys_dict: "distinct (map fst (dict ps))"
  using foldl_update_props [of "[]" ps] by (simp add: dict_def)

lemma set_dict_subset: "set (dict ps) \<subseteq> set ps"
  using foldl_update_props [of "[]" ps] by (simp add: dict_def)

lemma keys_dict: "fst ` set (dict ps) = fst ` set ps"
proof -
  have "dom (map_of (dict ps)) = dom (map_of (rev ps))"
    by (simp add: map_of_dict)
  then show ?thesis
    by (simp add: dom_map_of_conv_image_fst)
qed

lemma distinct_values_dict:
  assumes "distinct (map snd ps)"
  shows "distinct (map snd (dict ps))"
proof -
  have "distinct (dict ps)"
    using distinct_keys_dict [of ps] by (simp add: distinct_map)
  moreover have "inj_on snd (set ps)"
    using assms by (simp add: distinct_map)
  then have "inj_on snd (set (dict ps))"
    using set_dict_subset by (rule inj_on_subset)
  ultimately show ?thesis
    by (simp add: distinct_map)
qed

lemma encode_decodes:
  assumes "inverts A"
  shows "decode_all (decoder A) indices = Inr toks0 \<Longrightarrow> set toks \<subseteq> fst ` set (vocab A) \<Longrightarrow>
         \<exists>out. encode A indices toks = Inr out \<and> decode_all (decoder A) out = Inr (toks0 @ toks)"
proof (induction toks arbitrary: indices toks0)
  case Nil
  then show ?case by simp
next
  case (Cons t toks)
  from Cons.prems(2) have "t \<in> dom (map_of (vocab A))"
    by (simp add: dom_map_of_conv_image_fst)
  then obtain x where x: "map_of (vocab A) t = Some x"
    by blast
  with assms have "map_of (decoder A) x = Some t"
    by (simp add: inverts_def)
  with Cons.prems(1) have "decode_all (decoder A) (indices @ [x]) = Inr (toks0 @ [t])"
    by (simp add: decode_all_snoc)
  from Cons.IH [OF this] Cons.prems(2) show ?case
    by (simp add: x)
qed

lemma encode_values:
  "encode A indices toks = Inr out \<Longrightarrow> set out \<subseteq> set indices \<union> snd ` set (vocab A)"
proof (induction toks arbitrary: indices)
  case Nil
  then show ?case by auto
next
  case (Cons t toks)
  from Cons.prems obtain x where x: "map_of (vocab A) t = Some x"
    and rest: "encode A (indices @ [x]) toks = Inr out"
    by (auto split: option.splits)
  from x have "(t, x) \<in> set (vocab A)"
    by (rule map_of_SomeD)
  then have "x \<in> snd ` set (vocab A)"
    by force
  with Cons.IH [OF rest] show ?case
    by auto
qed

lemma np_array_exact:
  assumes "(\<forall>x \<in> set xs. 0 \<le> x) \<or> (\<forall>x \<in> set xs. x < 2 ^ 63)"
  shows "np_array xs = xs"
proof (cases "list_all (\<lambda>x. - (2 ^ 63) \<le> x \<and> x < 2 ^ 63) xs \<or>
    list_all (\<lambda>x. 0 \<le> x \<and> x < 2 ^ 64) xs \<or>
    list_ex (\<lambda>x. x < - (2 ^ 63) \<or> 2 ^ 64 \<le> x) xs")
  case True
  then show ?thesis
    by (auto simp: np_array_def)
next
  case False
  then have c1: "\<not> (\<forall>x \<in> set xs. - (2 ^ 63) \<le> x \<and> x < 2 ^ 63)"
    and c2: "\<not> (\<forall>x \<in> set xs. 0 \<le> x \<and> x < 2 ^ 64)"
    and c3: "\<forall>x \<in> set xs. - (2 ^ 63) \<le> x \<and> x < 2 ^ 64"
    by (auto simp: list_all_iff list_ex_iff not_le not_less)
  from c1 c3 obtain y where y: "y \<in> set xs" "2 ^ 63 \<le> y"
    by (auto simp: not_less)
  from c2 c3 obtain z where z: "z \<in> set xs" "z < 0"
    by (auto simp: not_le)
  from assms y z have False
    by (auto simp: not_le not_less)
  then show ?thesis ..
qed

text \<open>
  The indices that the scan emits are values of the vocabulary, so the array keeps them
  exact when the values are all non-negative or all below \<open>2\<^sup>6\<^sup>3\<close>.
\<close>

lemma atomize_loop_exact:
  assumes "(\<forall>x \<in> snd ` set v. 0 \<le> x) \<or> (\<forall>x \<in> snd ` set v. x < 2 ^ 63)"
    and "atomize_loop (GreedyAtomizer v) text (0, 2, []) = Some (Inr out)"
  shows "np_array out = out"
proof -
  have "set (map fst v) = fst ` set v"
    by simp
  from atomize_loop_refines [OF this, of "text" "(0, 2, [])"] assms(2)
  have "encode (GreedyAtomizer v) [] (greedy_tokens (map fst v) text) = Inr out"
    by simp
  from encode_values [OF this] have "set out \<subseteq> snd ` set v"
    by (simp add: GreedyAtomizer_def)
  with assms(1) have "(\<forall>x \<in> set out. 0 \<le> x) \<or> (\<forall>x \<in> set out. x < 2 ^ 63)"
    by blast
  then show ?thesis
    by (rule np_array_exact)
qed

section \<open>Round trip of the greedy atomizer\<close>

text \<open>
  C1 as it is stated fails on the code in two ways. With the vocabulary
  \<^verbatim>\<open>{'a': 0, 'b': 0}\<close>, whose two atoms share an index, the text \<^verbatim>\<open>a\<close> is encoded as
  \<open>[0]\<close> and decoded as \<^verbatim>\<open>b\<close>. With the vocabulary \<^verbatim>\<open>{'a': 2**63 + 1, 'b': -1}\<close>, whose
  indices are unique, the array of the indices of the text \<^verbatim>\<open>ab\<close> holds doubles, the
  first of them \<open>2\<^sup>6\<^sup>3\<close>, which is no index: \<open>deatomize\<close> raises \<^verbatim>\<open>VocabError\<close>.
\<close>

theorem greedy_roundtrip_counterexample:
  "atomize (GreedyAtomizer [(''a'', 0), (''b'', 0)]) ''a'' = Some (Inr [0]) \<and>
   deatomize (GreedyAtomizer [(''a'', 0), (''b'', 0)]) [0] = Inr ''b'' \<and>
   distinct (map snd [(''a'', 9223372036854775809 :: int), (''b'', - 1)]) \<and>
   atomize (GreedyAtomizer [(''a'', 9223372036854775809), (''b'', - 1)]) ''ab''
     = Some (Inr [9223372036854775808, - 1]) \<and>
   deatomize (GreedyAtomizer [(''a'', 9223372036854775809), (''b'', - 1)])
     [9223372036854775808, - 1] = Inl VocabError"
  by code_simp

text \<open>
  C1, amended: for every greedy atomizer whose vocabulary has unique index values that
  are all non-negative or all below \<open>2\<^sup>6\<^sup>3\<close> (so that the array of the indices keeps them
  exact), and every text that \<open>atomize\<close> encodes without raising \<^verbatim>\<open>VocabError\<close> (all
  atoms met by the scan are in the vocabulary), \<open>deatomize (atomize text) = text\<close>.
\<close>

theorem greedy_roundtrip:
  assumes "distinct (map snd v)"
    and "(\<forall>x \<in> snd ` set v. 0 \<le> x) \<or> (\<forall>x \<in> snd ` set v. x < 2 ^ 63)"
    and "atomize (GreedyAtomizer v) text = Some (Inr indices)"
  shows "deatomize (GreedyAtomizer v) indices = Inr text"
proof -
  from assms(3) obtain out where
    loop: "atomize_loop (GreedyAtomizer v) text (0, 2, []) = Some (Inr out)"
    and indices: "indices = np_array out"
    by (auto simp: atomize_def split: option.splits sum.splits)
  have "np_array out = out"
    using assms(2) loop by (rule atomize_loop_exact)
  with indices loop
  have "atomize_loop (GreedyAtomizer v) text (0, 2, []) = Some (Inr indices)"
    by simp
  moreover have "deatomize (GreedyAtomizer v) (snd (snd (0::nat, 2::nat, [])))
      = Inr (take (fst (0::nat, 2::nat, [])) text)"
    by (simp add: deatomize_def)
  ultimately show ?thesis
    using atomize_loop_decodes [OF inverts_GreedyAtomizer [OF assms(1)]] by blast
qed

theorem greedy_roundtrip_witness:
  "distinct (map snd [(''ab'', 0::int), (''a'', 1), (''c'', 2), (''b'', 5)]) \<and>
   atomize (GreedyAtomizer [(''ab'', 0), (''a'', 1), (''c'', 2), (''b'', 5)]) ''abacb''
     = Some (Inr [0, 1, 2, 5]) \<and>
   deatomize (GreedyAtomizer [(''ab'', 0), (''a'', 1), (''c'', 2), (''b'', 5)]) [0, 1, 2, 5]
     = Inr ''abacb''"
proof -
  have h1: "distinct (map snd [(''ab'', 0::int), (''a'', 1), (''c'', 2), (''b'', 5)])"
    by simp
  have h2: "(\<forall>x \<in> snd ` set [(''ab'', 0::int), (''a'', 1), (''c'', 2), (''b'', 5)]. 0 \<le> x) \<or>
      (\<forall>x \<in> snd ` set [(''ab'', 0::int), (''a'', 1), (''c'', 2), (''b'', 5)]. x < 2 ^ 63)"
    by simp
  have h3: "atomize (GreedyAtomizer [(''ab'', 0), (''a'', 1), (''c'', 2), (''b'', 5)]) ''abacb''
      = Some (Inr [0, 1, 2, 5])"
    by code_simp
  from h1 h3 greedy_roundtrip [OF h1 h2 h3] show ?thesis
    by blast
qed

section \<open>Tokenizing with the seed vocabulary\<close>

text \<open>
  The greedy scan refines longest-match tokenization: when the index values are unique
  and kept exact by the array, and every atom that the tokenization needs is in the
  vocabulary, \<open>tokenize\<close> returns the longest-match tokens.
\<close>

lemma greedy_tokenize_refines:
  assumes "distinct (map snd v)" and "set ms = fst ` set v"
    and "set (greedy_tokens ms text) \<subseteq> set ms"
    and "(\<forall>x \<in> snd ` set v. 0 \<le> x) \<or> (\<forall>x \<in> snd ` set v. x < 2 ^ 63)"
  shows "tokenize (GreedyAtomizer v) text = Some (Inr (greedy_tokens ms text))"
proof -
  let ?A = "GreedyAtomizer v"
  have loop: "atomize_loop ?A text (0, 2, []) = Some (encode ?A [] (greedy_tokens ms text))"
    using atomize_loop_refines [OF assms(2), of "text" "(0, 2, [])"] by simp
  have "vocab ?A = v"
    by (simp add: GreedyAtomizer_def)
  with assms(2,3) have "set (greedy_tokens ms text) \<subseteq> fst ` set (vocab ?A)"
    by simp
  from encode_decodes [OF inverts_GreedyAtomizer [OF assms(1)], of "[]" "[]", OF _ this]
  obtain out where out: "encode ?A [] (greedy_tokens ms text) = Inr out"
    and decoded: "decode_all (decoder ?A) out = Inr (greedy_tokens ms text)"
    by auto
  have "np_array out = out"
    using assms(4) loop [unfolded out] by (rule atomize_loop_exact)
  with out decoded show ?thesis
    by (simp add: tokenize_def atomize_def loop)
qed

lemma opencl_vocab_nonneg: "\<forall>x \<in> snd ` set (opencl_vocab order). 0 \<le> x"
proof
  fix x
  assume "x \<in> snd ` set (opencl_vocab order)"
  then obtain a where "(a, x) \<in> set (opencl_vocab order)"
    by auto
  then have "(a, x) \<in> set (zip order (map int [0..<length order]))"
    using set_dict_subset unfolding opencl_vocab_def by blast
  then have "x \<in> set (map int [0..<length order])"
    by (rule set_zip_rightD)
  then show "0 \<le> x"
    by auto
qed

lemma opencl_vocab_keys: "fst ` set (opencl_vocab order) = set order"
proof -
  have "map fst (zip order (map int [0..<length order])) = order"
    by simp
  then have "fst ` set (zip order (map int [0..<length order])) = set order"
    by (metis set_map)
  then show ?thesis
    by (simp add: opencl_vocab_def keys_dict)
qed

lemma opencl_vocab_values: "distinct (map snd (opencl_vocab order))"
proof -
  have "map snd (zip order (map int [0..<length order])) = map int [0..<length order]"
    by simp
  moreover have "distinct (map int [0..<length order])"
    by (simp add: distinct_map)
  ultimately show ?thesis
    unfolding opencl_vocab_def by (intro distinct_values_dict) simp
qed

text \<open>
  C3: for a greedy atomizer whose vocabulary indexes the \<^verbatim>\<open>OPENCL_ATOMS\<close> seed set (in
  whatever order the set is iterated), \<open>tokenize\<close> maps \<^verbatim>\<open>__kernel void f\<close> to the five
  atoms \<^verbatim>\<open>__kernel\<close>, a space, \<^verbatim>\<open>void\<close>, a space and \<^verbatim>\<open>f\<close>.
\<close>

theorem tokenize_kernel_void_f:
  assumes "set order = set OPENCL_ATOMS"
  shows "tokenize (GreedyAtomizer (opencl_vocab order)) ''__kernel void f'' =
           Some (Inr [''__kernel'', '' '', ''void'', '' '', ''f''])"
proof -
  have toks: "greedy_tokens OPENCL_ATOMS ''__kernel void f'' =
      [''__kernel'', '' '', ''void'', '' '', ''f'']"
    by code_simp
  have "set [''__kernel'', '' '', ''void'', '' '', ''f''] \<subseteq> set OPENCL_ATOMS"
    by code_simp
  then have "set (greedy_tokens OPENCL_ATOMS ''__kernel void f'') \<subseteq> set OPENCL_ATOMS"
    by (simp only: toks)
  then have sub: "set (greedy_tokens OPENCL_ATOMS ''__kernel void f'') \<subseteq> set OPENCL_ATOMS" .
  have keys: "set OPENCL_ATOMS = fst ` set (opencl_vocab order)"
    using assms by (simp add: opencl_vocab_keys)
  have exact: "(\<forall>x \<in> snd ` set (opencl_vocab order). 0 \<le> x) \<or>
      (\<forall>x \<in> snd ` set (opencl_vocab order). x < 2 ^ 63)"
    using opencl_vocab_nonneg [of order] by blast
  from greedy_tokenize_refines [OF opencl_vocab_values keys sub exact] show ?thesis
    by (simp only: toks)
qed

theorem tokenize_kernel_void_f_witness:
  "set OPENCL_ATOMS = set OPENCL_ATOMS \<and>
   tokenize (GreedyAtomizer (opencl_vocab OPENCL_ATOMS)) ''__kernel void f'' =
     Some (Inr [''__kernel'', '' '', ''void'', '' '', ''f''])"
  using tokenize_kernel_void_f [OF refl] by simp

section \<open>The transfer size of a payload\<close>

lemma create_arg_transfer:
  assumes "create_arg env nparray sz arg transfer w = Some (arg', transfer', w')"
  shows "transfer' = transfer + transfer_contribution arg' \<and>
         (hostdata arg' \<noteq> None \<longleftrightarrow> is_pointer arg' \<and> \<not> is_local arg')"
  using assms
  by (auto simp: create_arg_def transfer_contribution_def Let_def new_LocalMemory_def
      split: if_splits option.splits prod.splits)

lemma create_args_transfer:
  "create_args env nparray sz as transfer w = Some (as', transfer', w') \<Longrightarrow>
   transfer' = transfer + sum_list (map transfer_contribution as') \<and>
   (\<forall>a \<in> set as'. hostdata a \<noteq> None \<longleftrightarrow> is_pointer a \<and> \<not> is_local a)"
proof (induction as arbitrary: transfer w as' transfer' w')
  case Nil
  then show ?case by simp
next
  case (Cons a as)
  from Cons.prems obtain a' t1 w1 rest' where
    a: "create_arg env nparray sz a transfer w = Some (a', t1, w1)"
    and rest: "create_args env nparray sz as t1 w1 = Some (rest', transfer', w')"
    and as': "as' = a' # rest'"
    by (auto split: option.splits)
  from create_arg_transfer [OF a] Cons.IH [OF rest] show ?case
    by (simp add: as')
qed

text \<open>
  C6: for every payload that \<open>create_payload\<close> builds, with whatever array factory (the
  sequential and the random generator are two of them), the recorded transfer size is the
  sum of the contributions of the arguments, and an argument has a host buffer exactly
  when it is a pointer that is not local.
\<close>

theorem transfersize_formula:
  assumes "create_payload env nparray driver sz w = Inr (P, w')"
  shows "transfersize P = sum_list (map transfer_contribution (args P)) \<and>
         (\<forall>a \<in> set (args P). hostdata a \<noteq> None \<longleftrightarrow> is_pointer a \<and> \<not> is_local a)"
proof -
  from assms obtain as' where
    "create_args env nparray sz (map KernelArg_of (prototype driver)) 0 w
       = Some (as', transfersize P, w')"
    and "args P = as'"
    by (auto simp: create_payload_def split: option.splits)
  with create_args_transfer [of env nparray sz _ 0 w as' "transfersize P" w'] show ?thesis
    by simp
qed


theorem transfersize_formula_witness:
  "create_payload (env0 [float_ptr, local_ptr, const_int]) np_arange
     (driver0 [float_ptr, local_ptr, const_int]) 16 world0 = Inr (payload16, world16) \<and>
   transfersize payload16 = sum_list (map transfer_contribution (args payload16)) \<and>
   transfersize payload16 = 128"
proof -
  have h: "create_payload (env0 [float_ptr, local_ptr, const_int]) np_arange
     (driver0 [float_ptr, local_ptr, const_int]) 16 world0 = Inr (payload16, world16)"
    by code_simp
  have v: "transfersize payload16 = 128"
    by code_simp
  from transfersize_formula [OF h] h v show ?thesis
    by blast
qed

section \<open>Clones and equality of payloads\<close>

text \<open>
  C4 fails on the code for a payload with a pointer to local memory: the clone holds a
  fresh \<^verbatim>\<open>LocalMemory\<close> object, and the equality compares the device-side values of every
  argument without a host buffer, the local ones included. Here the sequential payload of
  size 16 for the three arguments is copied, and the copy and the original are unequal
  in both directions.
\<close>

theorem clone_with_local_pointer_differs:
  "\<not> isl (deepcopy (env0 [float_ptr, local_ptr, const_int]) payload16 world16) \<and>
   payload_eq (fst (projr (deepcopy (env0 [float_ptr, local_ptr, const_int]) payload16 world16)))
     payload16 = Inr False \<and>
   payload_eq payload16
     (fst (projr (deepcopy (env0 [float_ptr, local_ptr, const_int]) payload16 world16))) = Inr False"
  by code_simp

text \<open>
  For the same kernel \<open>validate\<close> stops at its own constraint on the inputs
  (\<^verbatim>\<open>A1in == A2in\<close>, where \<^verbatim>\<open>A2in\<close> is the clone of \<^verbatim>\<open>A1in\<close>) and raises \<^verbatim>\<open>E_BAD_DRIVER\<close>.
\<close>

lemma validate_local_pointer:
  "validate (env0 [float_ptr, local_ptr, const_int]) (driver0 [float_ptr, local_ptr, const_int])
     2 world0 = Some (Inl E_BAD_DRIVER, driver0 [float_ptr, local_ptr, const_int])"
  by code_simp

section \<open>Transfers between host and device\<close>

lemma device_to_host_loop_elapsed:
  "device_to_host_loop env as elapsed w = Inr ((t, as'), w') \<Longrightarrow> t = elapsed"
  by (induction as arbitrary: w as' w')
     (auto split: if_splits option.splits sum.splits prod.splits devdata.splits)

lemma device_to_host_zero:
  "device_to_host env p w = Inr ((t, p'), w') \<Longrightarrow> t = 0"
  by (auto simp: device_to_host_def split: sum.splits dest: device_to_host_loop_elapsed)

text \<open>
  C5 fails on the code: \<open>device_to_host\<close> enqueues the copy for the argument with a host
  buffer that is not const (event 0, which takes 3 ms), but it returns 0, whereas
  \<open>host_to_device\<close> returns the 3 ms of its copy.
\<close>

theorem device_to_host_drops_time:
  "\<not> isl (host_to_device (env0 [float_ptr, local_ptr, const_int]) payload16 world16) \<and>
   fst (projr (host_to_device (env0 [float_ptr, local_ptr, const_int]) payload16 world16)) = 3 \<and>
   \<not> isl (device_to_host (env0 [float_ptr, local_ptr, const_int]) payload16 world16) \<and>
   fst (fst (projr (device_to_host (env0 [float_ptr, local_ptr, const_int]) payload16 world16))) = 0 \<and>
   enqueued (snd (projr (device_to_host (env0 [float_ptr, local_ptr, const_int]) payload16 world16)))
     = [CopyDeviceToHost 0] \<and>
   get_event_time (env0 [float_ptr, local_ptr, const_int]) 0 = Inr 3"
  by code_simp

section \<open>The measurements of a driver\<close>

lemma call_measurements:
  assumes "call env d w p = (r, d')"
  shows "(isl r \<and> d' = d) \<or>
         (length (wgsizes d') = length (wgsizes d) + 1 \<and>
          length (transfers d') = length (transfers d) + 1 \<and>
          length (runtimes d') = length (runtimes d) + 1)"
  using assms
  by (cases r)
    (auto simp: call_def Let_def split: sum.splits prod.splits if_splits list.splits option.splits)

lemma call_returns:
  assumes "call env d w p = (Inr out, d')"
  shows "length (wgsizes d') = length (wgsizes d) + 1 \<and>
         length (transfers d') = length (transfers d) + 1 \<and>
         length (runtimes d') = length (runtimes d) + 1"
  using call_measurements [OF assms] by simp

lemma run_calls_measurements:
  "run_calls env d cs = (d', n) \<Longrightarrow>
   \<exists>k. n \<le> k \<and> k \<le> length cs \<and>
     length (wgsizes d') = length (wgsizes d) + k \<and>
     length (transfers d') = length (transfers d) + k \<and>
     length (runtimes d') = length (runtimes d) + k"
proof (induction cs arbitrary: d d' n)
  case Nil
  then show ?case by simp
next
  case (Cons c cs)
  obtain w p where c: "c = (w, p)" by (cases c)
  obtain r d1 where call: "call env d w p = (r, d1)" by (cases "call env d w p")
  show ?case
  proof (cases r)
    case (Inl e)
    with Cons.prems call have rest: "run_calls env d1 cs = (d', n)"
      by (simp add: c)
    from Cons.IH [OF rest] obtain k where k: "n \<le> k" "k \<le> length cs"
      "length (wgsizes d') = length (wgsizes d1) + k"
      "length (transfers d') = length (transfers d1) + k"
      "length (runtimes d') = length (runtimes d1) + k"
      by blast
    from call_measurements [OF call] show ?thesis
    proof
      assume "isl r \<and> d1 = d"
      with k show ?thesis
        by (intro exI [of _ k]) simp
    next
      assume "length (wgsizes d1) = length (wgsizes d) + 1 \<and>
        length (transfers d1) = length (transfers d) + 1 \<and>
        length (runtimes d1) = length (runtimes d) + 1"
      with k show ?thesis
        by (intro exI [of _ "k + 1"]) simp
    qed
  next
    case (Inr out)
    with Cons.prems call obtain m where rest: "run_calls env d1 cs = (d', m)" and n: "n = m + 1"
      by (auto simp: c split: prod.splits)
    from Cons.IH [OF rest] obtain k where k: "m \<le> k" "k \<le> length cs"
      "length (wgsizes d') = length (wgsizes d1) + k"
      "length (transfers d') = length (transfers d1) + k"
      "length (runtimes d') = length (runtimes d1) + k"
      by blast
    from call Inr have "call env d w p = (Inr out, d1)"
      by simp
    from call_returns [OF this] k show ?thesis
      by (intro exI [of _ "k + 1"]) (simp add: n)
  qed
qed

text \<open>
  C9 as it is stated fails on the code: \<open>__call__\<close> appends to the three vectors and only
  then flushes the queue a last time. With a queue whose closing flush raises, one call on
  a fresh driver raises, so no call has returned, and yet each vector has one element.
\<close>

theorem measurement_vectors_counterexample:
  "KernelDriver_init (env_flush [float_ptr, local_ptr, const_int]) 0 ''kernel''
     = Inr (driver0 [float_ptr, local_ptr, const_int]) \<and>
   fst (call (env_flush [float_ptr, local_ptr, const_int])
          (driver0 [float_ptr, local_ptr, const_int]) world16 payload16) = Inl RuntimeError \<and>
   snd (run_calls (env_flush [float_ptr, local_ptr, const_int])
          (driver0 [float_ptr, local_ptr, const_int]) [(world16, payload16)]) = 0 \<and>
   length (wgsizes (fst (run_calls (env_flush [float_ptr, local_ptr, const_int])
          (driver0 [float_ptr, local_ptr, const_int]) [(world16, payload16)]))) = 1 \<and>
   length (transfers (fst (run_calls (env_flush [float_ptr, local_ptr, const_int])
          (driver0 [float_ptr, local_ptr, const_int]) [(world16, payload16)]))) = 1 \<and>
   length (runtimes (fst (run_calls (env_flush [float_ptr, local_ptr, const_int])
          (driver0 [float_ptr, local_ptr, const_int]) [(world16, payload16)]))) = 1"
  by code_simp

text \<open>
  C9, amended: the three measurement vectors of a driver always have equal lengths. They
  are empty at construction; every execution that returns appends exactly one element to
  each of them; an execution that raises appends nothing, or one element to each of them
  (when it is the closing flush of the queue that raises). So after a sequence of calls of
  which \<open>n\<close> returned, the three vectors have one length, at least \<open>n\<close> and at most the
  number of calls: exactly \<open>n\<close> when every call returned.
\<close>

theorem measurement_vectors:
  assumes "KernelDriver_init env ctx source = Inr d0"
    and "run_calls env d0 cs = (d, n)"
    and "call env d w p = (r, d')"
  shows "wgsizes d0 = [] \<and> transfers d0 = [] \<and> runtimes d0 = [] \<and>
         length (transfers d) = length (wgsizes d) \<and>
         length (runtimes d) = length (wgsizes d) \<and>
         n \<le> length (wgsizes d) \<and> length (wgsizes d) \<le> length cs \<and>
         length (transfers d') = length (wgsizes d') \<and>
         length (runtimes d') = length (wgsizes d') \<and>
         length (wgsizes d) \<le> length (wgsizes d') \<and>
         length (wgsizes d') \<le> length (wgsizes d) + 1 \<and>
         (\<not> isl r \<longrightarrow> length (wgsizes d') = length (wgsizes d) + 1)"
proof -
  from assms(1) have empty: "wgsizes d0 = [] \<and> transfers d0 = [] \<and> runtimes d0 = []"
    by (auto simp: KernelDriver_init_def split: option.splits if_splits)
  from run_calls_measurements [OF assms(2)] empty
  have seq: "length (transfers d) = length (wgsizes d) \<and>
      length (runtimes d) = length (wgsizes d) \<and>
      n \<le> length (wgsizes d) \<and> length (wgsizes d) \<le> length cs"
    by auto
  from call_measurements [OF assms(3)] seq
  have one: "length (transfers d') = length (wgsizes d') \<and>
      length (runtimes d') = length (wgsizes d') \<and>
      length (wgsizes d) \<le> length (wgsizes d') \<and>
      length (wgsizes d') \<le> length (wgsizes d) + 1 \<and>
      (\<not> isl r \<longrightarrow> length (wgsizes d') = length (wgsizes d) + 1)"
    by auto
  from empty seq one show ?thesis
    by blast
qed

theorem measurement_vectors_witness:
  "KernelDriver_init (env0 [float_ptr, local_ptr, const_int]) 0 ''kernel''
     = Inr (driver0 [float_ptr, local_ptr, const_int]) \<and>
   run_calls (env0 [float_ptr, local_ptr, const_int]) (driver0 [float_ptr, local_ptr, const_int]) calls3
     = (driver3, 3) \<and>
   \<not> isl (fst (call (env0 [float_ptr, local_ptr, const_int]) driver3 world16 payload16)) \<and>
   length (wgsizes driver3) = 3 \<and> length (transfers driver3) = 3 \<and>
   length (runtimes driver3) = 3 \<and>
   length (wgsizes (snd (call (env0 [float_ptr, local_ptr, const_int]) driver3 world16 payload16))) = 4 \<and>
   length (transfers (snd (call (env0 [float_ptr, local_ptr, const_int]) driver3 world16 payload16))) = 4 \<and>
   length (runtimes (snd (call (env0 [float_ptr, local_ptr, const_int]) driver3 world16 payload16))) = 4"
proof -
  have h1: "KernelDriver_init (env0 [float_ptr, local_ptr, const_int]) 0 ''kernel''
     = Inr (driver0 [float_ptr, local_ptr, const_int])"
    by code_simp
  have h2: "run_calls (env0 [float_ptr, local_ptr, const_int])
       (driver0 [float_ptr, local_ptr, const_int]) calls3 = (driver3, 3)"
    by code_simp
  have h3: "call (env0 [float_ptr, local_ptr, const_int]) driver3 world16 payload16
     = (fst (call (env0 [float_ptr, local_ptr, const_int]) driver3 world16 payload16),
        snd (call (env0 [float_ptr, local_ptr, const_int]) driver3 world16 payload16))"
    by simp
  have h4: "\<not> isl (fst (call (env0 [float_ptr, local_ptr, const_int]) driver3 world16 payload16))"
    by code_simp
  have "length calls3 = 3"
    by (simp add: calls3_def)
  with measurement_vectors [OF h1 h2 h3] h1 h2 h4 show ?thesis
    by auto
qed

section \<open>The validator\<close>

lemma copy_arg_shape:
  "copy_arg env a w = Inr (a', w') \<Longrightarrow> (hostdata a' = None) = (hostdata a = None)"
  by (auto simp: copy_arg_def Let_def new_LocalMemory_def split: if_splits option.splits prod.splits)

lemma copy_args_shape:
  "copy_args env as w = Inr (as', w') \<Longrightarrow>
   map (\<lambda>a. hostdata a = None) as' = map (\<lambda>a. hostdata a = None) as"
proof (induction as arbitrary: w as' w')
  case Nil
  then show ?case by simp
next
  case (Cons a as)
  from Cons.prems obtain a' w1 rest' where
    a: "copy_arg env a w = Inr (a', w1)"
    and rest: "copy_args env as w1 = Inr (rest', w')"
    and as': "as' = a' # rest'"
    by (auto split: sum.splits)
  from copy_arg_shape [OF a] Cons.IH [OF rest] show ?case
    by (simp add: as')
qed

lemma device_to_host_loop_shape:
  "device_to_host_loop env as elapsed w = Inr ((t, as'), w') \<Longrightarrow>
   map (\<lambda>a. hostdata a = None) as' = map (\<lambda>a. hostdata a = None) as"
  by (induction as arbitrary: w as' w')
     (auto split: if_splits option.splits sum.splits prod.splits devdata.splits)

lemma call_shape:
  assumes "call env d w p = (Inr (out, w'), d')"
  shows "map (\<lambda>a. hostdata a = None) (args out) = map (\<lambda>a. hostdata a = None) (args p) \<and>
         payload_ctx out = payload_ctx p"
proof -
  from assms obtain c w1 t w2 where
    copy: "deepcopy env p w = Inr (c, w1)"
    and dth: "device_to_host env c w2 = Inr ((t, out), w')"
    by (auto simp: call_def Let_def
        split: sum.splits prod.splits if_splits list.splits option.splits)
  from copy have "map (\<lambda>a. hostdata a = None) (args c) = map (\<lambda>a. hostdata a = None) (args p)"
    and "payload_ctx c = payload_ctx p"
    by (auto simp: deepcopy_def split: sum.splits dest: copy_args_shape)
  moreover from dth
  have "map (\<lambda>a. hostdata a = None) (args out) = map (\<lambda>a. hostdata a = None) (args c)"
    and "payload_ctx out = payload_ctx c"
    by (auto simp: device_to_host_def split: sum.splits dest: device_to_host_loop_shape)
  ultimately show ?thesis
    by simp
qed

lemma args_eq_returns:
  "map (\<lambda>a. hostdata a = None) xs = map (\<lambda>a. hostdata a = None) ys \<Longrightarrow>
   \<exists>b. args_eq (zip xs ys) = Inr b"
proof (induction xs arbitrary: ys)
  case Nil
  show ?case by auto
next
  case (Cons x xs)
  note IH = Cons.IH and prems = Cons.prems
  show ?case
  proof (cases ys)
    case Nil
    show ?thesis by (auto simp: Nil)
  next
    case (Cons y ys')
    with prems have "(hostdata x = None) = (hostdata y = None)"
      and "map (\<lambda>a. hostdata a = None) xs = map (\<lambda>a. hostdata a = None) ys'"
      by auto
    with IH [of ys'] show ?thesis
      by (auto simp: Cons split: option.splits)
  qed
qed

lemma payload_eq_returns:
  "map (\<lambda>a. hostdata a = None) (args p) = map (\<lambda>a. hostdata a = None) (args q) \<Longrightarrow>
   \<exists>b. payload_eq p q = Inr b"
  using args_eq_returns [of "args p" "args q"] by (auto simp: payload_eq_def)

lemma args_eq_raises: "args_eq xys = Inl e \<Longrightarrow> e = TypeError"
  by (induction xys rule: args_eq.induct) (auto split: option.splits if_splits)

lemma payload_eq_raises: "payload_eq p q = Inl e \<Longrightarrow> e = TypeError"
  by (auto simp: payload_eq_def split: if_splits dest: args_eq_raises)

lemma payload_ne_raises: "payload_ne p q = Inl e \<Longrightarrow> e = TypeError"
  by (auto simp: payload_ne_def split: sum.splits dest: payload_eq_raises)

lemma asserting_raises:
  assumes "asserting comparison err continue = Inl e"
  shows "comparison = Inl e \<or> e = err \<or> continue = Inl e"
  using assms by (auto simp: asserting_def assert_constraint_def split: sum.splits if_splits)

text \<open>
  C7: when the four inputs are built, the constraints on the inputs hold and the four
  runs return, \<open>validate\<close> raises \<^verbatim>\<open>E_NO_OUTPUTS\<close> exactly when the first output of A
  equals its input or the first output of B equals its input. The later assertions
  (determinism, sensitivity to the input) play no part: they are evaluated only after
  both of these have passed.
\<close>

theorem validate_no_outputs:
  assumes inputs: "validate_inputs env driver sz w = Some (Inr ((A1in, A2in, B1in, B2in), w1))"
    and pre: "payload_eq A1in A2in = Inr True" "payload_eq B1in B2in = Inr True"
    and runs: "validate_runs env driver w1 A1in B1in A2in B2in
                 = (Inr ((A1out, B1out, A2out, B2out), w2), d')"
  shows "validate env driver sz w = Some (Inl E_NO_OUTPUTS, d') \<longleftrightarrow>
           payload_eq A1in A1out = Inr True \<or> payload_eq B1in B1out = Inr True"
proof -
  from runs obtain wa da wb db where
    callA: "call env driver w1 A1in = (Inr (A1out, wa), da)"
    and callB: "call env da wa B1in = (Inr (B1out, wb), db)"
    by (auto simp: validate_runs_def split: sum.splits prod.splits)
  obtain a where a: "payload_eq A1in A1out = Inr a"
    using payload_eq_returns [of A1in A1out] call_shape [OF callA] by auto
  obtain b where b: "payload_eq B1in B1out = Inr b"
    using payload_eq_returns [of B1in B1out] call_shape [OF callB] by auto
  let ?rest = "asserting (payload_eq A1out A2out) E_NONDETERMINISTIC
          (asserting (payload_eq B1out B2out) E_NONDETERMINISTIC
            (if list_ex (\<lambda>x. \<not> is_const x) (prototype driver)
             then asserting (payload_ne A1out B1out) E_INPUT_INSENSITIVE (Inr ())
             else Inr ()))"
  have rest: "?rest \<noteq> Inl E_NO_OUTPUTS"
    by (auto dest!: asserting_raises payload_eq_raises payload_ne_raises split: if_splits)
  have outputs: "validate_outputs driver A1in B1in A1out B1out A2out B2out =
      (if a \<or> b then Inl E_NO_OUTPUTS else ?rest)"
    by (simp add: validate_outputs_def asserting_def assert_constraint_def payload_ne_def a b)
  have "validate env driver sz w =
      (case validate_outputs driver A1in B1in A1out B1out A2out B2out of
         Inl e \<Rightarrow> Some (Inl e, d')
       | Inr u \<Rightarrow> Some (Inr w2, d'))"
    by (simp add: validate_def inputs pre runs asserting_def assert_constraint_def)
  with outputs rest show ?thesis
    by (auto simp: a b split: sum.splits)
qed

theorem validate_no_outputs_witness:
  "validate_inputs (env0 [float_ptr]) (driver0 [float_ptr]) 2 world0
     = Some (Inr ((A1in1, A2in1, B1in1, B2in1), snd inputs1)) \<and>
   payload_eq A1in1 A2in1 = Inr True \<and> payload_eq B1in1 B2in1 = Inr True \<and>
   validate_runs (env0 [float_ptr]) (driver0 [float_ptr]) (snd inputs1) A1in1 B1in1 A2in1 B2in1
     = (Inr ((A1out1, B1out1, A2out1, B2out1), snd (projr (fst runs1))), snd runs1) \<and>
   payload_eq A1in1 A1out1 = Inr True \<and>
   validate (env0 [float_ptr]) (driver0 [float_ptr]) 2 world0 = Some (Inl E_NO_OUTPUTS, snd runs1)"
proof -
  have h1: "validate_inputs (env0 [float_ptr]) (driver0 [float_ptr]) 2 world0
     = Some (Inr ((A1in1, A2in1, B1in1, B2in1), snd inputs1))"
    by code_simp
  have h2: "payload_eq A1in1 A2in1 = Inr True"
    by code_simp
  have h3: "payload_eq B1in1 B2in1 = Inr True"
    by code_simp
  have h4: "validate_runs (env0 [float_ptr]) (driver0 [float_ptr]) (snd inputs1)
       A1in1 B1in1 A2in1 B2in1
     = (Inr ((A1out1, B1out1, A2out1, B2out1), snd (projr (fst runs1))), snd runs1)"
    by code_simp
  have same: "payload_eq A1in1 A1out1 = Inr True"
    by code_simp
  from validate_no_outputs [OF h1 h2 h3 h4] same
  have "validate (env0 [float_ptr]) (driver0 [float_ptr]) 2 world0
      = Some (Inl E_NO_OUTPUTS, snd runs1)"
    by blast
  with h1 h2 h3 h4 same show ?thesis
    by blast
qed

section \<open>The vocabulary of a character atomizer\<close>

lemma update_fresh: "k \<notin> fst ` set al \<Longrightarrow> AList.update k v al = al @ [(k, v)]"
  by (induction al) auto

lemma foldl_update_distinct:
  "distinct (map fst (d @ ps)) \<Longrightarrow> foldl (\<lambda>d (k, v). AList.update k v d) d ps = d @ ps"
proof (induction ps arbitrary: d)
  case Nil
  then show ?case by simp
next
  case (Cons p ps)
  obtain k v where p: "p = (k, v)" by (cases p)
  from Cons.prems have "k \<notin> fst ` set d"
    by (auto simp: p)
  then have "AList.update k v d = d @ [(k, v)]"
    by (rule update_fresh)
  moreover from Cons.prems have "distinct (map fst ((d @ [(k, v)]) @ ps))"
    by (simp add: p)
  ultimately show ?case
    using Cons.IH [of "d @ [(k, v)]"] by (simp add: p)
qed

lemma dict_distinct: "distinct (map fst ps) \<Longrightarrow> dict ps = ps"
  using foldl_update_distinct [of "[]" ps] by (simp add: dict_def)

lemma Counter_fold:
  "distinct (map fst d) \<Longrightarrow>
   distinct (map fst (foldl (\<lambda>d c. AList.update c (case map_of d c of None \<Rightarrow> 1 | Some n \<Rightarrow> n + 1) d) d text)) \<and>
   map_of (foldl (\<lambda>d c. AList.update c (case map_of d c of None \<Rightarrow> 1 | Some n \<Rightarrow> n + 1) d) d text) c =
     (case map_of d c of
        None \<Rightarrow> (if c \<in> set text then Some (int (count_list text c)) else None)
      | Some n \<Rightarrow> Some (n + int (count_list text c)))"
proof (induction "text" arbitrary: d)
  case Nil
  then show ?case by (simp split: option.splits)
next
  case (Cons x xs)
  let ?d = "AList.update x (case map_of d x of None \<Rightarrow> 1 | Some n \<Rightarrow> n + 1) d"
  have "distinct (map fst ?d)"
    using Cons.prems by (rule distinct_update)
  from Cons.IH [OF this] show ?case
    by (auto simp: update_conv' split: option.splits)
qed

lemma Counter_distinct: "distinct (map fst (Counter text))"
  using Counter_fold [of "[]" "text"] by (simp add: Counter_def)

lemma map_of_Counter:
  "map_of (Counter text) c = (if c \<in> set text then Some (int (count_list text c)) else None)"
  using Counter_fold [of "[]" "text" c] by (simp add: Counter_def)

lemma Counter_keys: "fst ` set (Counter text) = set text"
proof -
  have "dom (map_of (Counter text)) = set text"
    by (auto simp: map_of_Counter dom_def)
  then show ?thesis
    by (simp add: dom_map_of_conv_image_fst)
qed

lemma Counter_count: "(c, n) \<in> set (Counter text) \<Longrightarrow> n = int (count_list text c)"
proof -
  assume "(c, n) \<in> set (Counter text)"
  then have "map_of (Counter text) c = Some n"
    using Counter_distinct [of "text"] by simp
  then show ?thesis
    by (simp add: map_of_Counter split: if_splits)
qed

lemma count_pairs_set: "set (count_pairs text) = set (Counter text)"
  by (simp add: count_pairs_def)

lemma count_pairs_distinct: "distinct (map fst (count_pairs text))"
proof -
  have "distinct (Counter text)" "inj_on fst (set (Counter text))"
    using Counter_distinct [of "text"] by (simp_all add: distinct_map)
  then show ?thesis
    by (simp add: distinct_map count_pairs_def)
qed

lemma count_pairs_sorted:
  assumes "k \<le> l" and "l < length (count_pairs text)"
  shows "snd (count_pairs text ! l) \<le> snd (count_pairs text ! k)"
proof -
  have "sorted (map (\<lambda>x. - snd x) (count_pairs text))"
    by (simp add: count_pairs_def)
  with assms have "map (\<lambda>x. - snd x) (count_pairs text) ! k \<le> map (\<lambda>x. - snd x) (count_pairs text) ! l"
    by (simp add: sorted_iff_nth_mono del: nth_map)
  with assms show ?thesis
    by simp
qed

lemma subseq_pair_nth:
  "subseq [x, y] xs \<Longrightarrow> \<exists>k l. k < l \<and> l < length xs \<and> xs ! k = x \<and> xs ! l = y"
proof (induction xs)
  case Nil
  then show ?case by simp
next
  case (Cons z zs)
  show ?case
  proof (cases "x = z")
    case True
    with Cons.prems have "y \<in> set zs"
      by (simp add: subseq_singleton_left)
    then obtain l where "l < length zs" "zs ! l = y"
      by (auto simp: in_set_conv_nth)
    then have "0 < Suc l \<and> Suc l < length (z # zs) \<and> (z # zs) ! 0 = x \<and> (z # zs) ! Suc l = y"
      using True by simp
    then show ?thesis
      by blast
  next
    case False
    with Cons.prems have "subseq [x, y] zs"
      by simp
    from Cons.IH [OF this] obtain k l where "k < l" "l < length zs" "zs ! k = x" "zs ! l = y"
      by blast
    then have "Suc k < Suc l \<and> Suc l < length (z # zs) \<and> (z # zs) ! Suc k = x \<and> (z # zs) ! Suc l = y"
      by simp
    then show ?thesis
      by blast
  qed
qed

lemma count_pairs_stable:
  assumes "subseq [x, y] (Counter text)" and "snd x = snd y"
  shows "subseq [x, y] (count_pairs text)"
proof -
  let ?P = "\<lambda>z. - snd z = - snd x"
  have "subseq (filter ?P [x, y]) (filter ?P (Counter text))"
    using assms(1) by (rule subseq_filter)
  moreover have "filter ?P [x, y] = [x, y]"
    using assms(2) by simp
  moreover have "filter ?P (Counter text) = filter ?P (count_pairs text)"
    unfolding count_pairs_def by (rule sort_key_stable [symmetric])
  ultimately have "subseq [x, y] (filter ?P (count_pairs text))"
    by simp
  moreover have "subseq (filter ?P (count_pairs text)) (count_pairs text)"
    by simp
  ultimately show ?thesis
    by (rule subseq_order.trans)
qed

lemma from_text_vocab:
  assumes "text \<noteq> []"
  shows "\<exists>A. CharacterAtomizer_from_text text = Inr A \<and>
           vocab A = zip (map (\<lambda>x. [fst x]) (count_pairs text))
                         (map int [0..<length (count_pairs text)])"
proof -
  let ?L = "count_pairs text"
  let ?atoms = "map (\<lambda>x. [fst x]) ?L"
  from assms have "set (Counter text) \<noteq> {}"
    using Counter_keys [of "text"] by auto
  then have ne: "?L \<noteq> []"
    using count_pairs_set [of "text"] by auto
  have "distinct ?atoms"
    using count_pairs_distinct [of "text"] by (simp add: distinct_map inj_on_def)
  then have "distinct (map fst (zip ?atoms (map int [0..<length ?atoms])))"
    by simp
  then have "dict (zip ?atoms (map int [0..<length ?atoms])) = zip ?atoms (map int [0..<length ?atoms])"
    by (rule dict_distinct)
  with ne show ?thesis
    by (simp add: CharacterAtomizer_from_text_def Let_def Atomizer_def count_pairs_def)
qed

lemma vocab_position:
  assumes "map_of (zip (map (\<lambda>x. [fst x]) L) (map int [0..<length L])) [c] = Some i"
  shows "\<exists>k. k < length L \<and> i = int k \<and> fst (L ! k) = c"
proof -
  from assms have "([c], i) \<in> set (zip (map (\<lambda>x. [fst x]) L) (map int [0..<length L]))"
    by (rule map_of_SomeD)
  then show ?thesis
    by (auto simp: set_zip)
qed

text \<open>
  For a corpus that is not empty \<open>from_text\<close> builds the vocabulary that the
  specification describes: its atoms are the distinct characters of the corpus, a
  character that occurs more often has the smaller index, and of two characters that
  occur equally often the one counted first has the smaller index.
\<close>

lemma from_text_vocabulary:
  assumes "text \<noteq> []"
  shows "\<exists>A. CharacterAtomizer_from_text text = Inr A \<and>
           fst ` set (vocab A) = (\<lambda>c. [c]) ` set text \<and>
           distinct (map fst (vocab A)) \<and>
           (\<forall>c d i j. map_of (vocab A) [c] = Some i \<and> map_of (vocab A) [d] = Some j \<and>
               count_list text d < count_list text c \<longrightarrow> i < j) \<and>
           (\<forall>x y i j. map_of (vocab A) [fst x] = Some i \<and> map_of (vocab A) [fst y] = Some j \<and>
               subseq [x, y] (Counter text) \<and> snd x = snd y \<longrightarrow> i < j)"
proof -
  let ?L = "count_pairs text"
  let ?atoms = "map (\<lambda>x. [fst x]) ?L"
  from from_text_vocab [OF assms] obtain A where
    A: "CharacterAtomizer_from_text text = Inr A"
    and v: "vocab A = zip ?atoms (map int [0..<length ?L])"
    by blast
  have unique: "k = l" if "k < length ?L" "l < length ?L" "fst (?L ! k) = fst (?L ! l)" for k l
  proof -
    from that have "map fst ?L ! k = map fst ?L ! l"
      by simp
    with nth_eq_iff_index_eq [OF count_pairs_distinct [of "text"], of k l] that show ?thesis
      by simp
  qed
  have count: "snd (?L ! k) = int (count_list text (fst (?L ! k)))" if "k < length ?L" for k
  proof -
    from that have "?L ! k \<in> set ?L"
      by (rule nth_mem)
    then have "?L ! k \<in> set (Counter text)"
      by (simp add: count_pairs_set)
    then show ?thesis
      using Counter_count [of "fst (?L ! k)" "snd (?L ! k)" "text"] by simp
  qed
  have keys: "fst ` set (vocab A) = (\<lambda>c. [c]) ` set text"
  proof -
    have "map fst (vocab A) = ?atoms"
      unfolding v by simp
    then have "set (map fst (vocab A)) = set ?atoms"
      by (rule arg_cong)
    then have "fst ` set (vocab A) = (\<lambda>c. [c]) ` fst ` set (Counter text)"
      by (simp add: count_pairs_set image_image)
    then show ?thesis
      by (simp add: Counter_keys)
  qed
  have dist: "distinct (map fst (vocab A))"
    unfolding v using count_pairs_distinct [of "text"] by (simp add: distinct_map inj_on_def)
  have by_count: "i < j"
    if "map_of (vocab A) [c] = Some i" "map_of (vocab A) [d] = Some j"
      "count_list text d < count_list text c" for c d i j
  proof -
    from that(1) have "\<exists>k. k < length ?L \<and> i = int k \<and> fst (?L ! k) = c"
      unfolding v by (rule vocab_position)
    then obtain k where k: "k < length ?L" "i = int k" "fst (?L ! k) = c"
      by blast
    from that(2) have "\<exists>l. l < length ?L \<and> j = int l \<and> fst (?L ! l) = d"
      unfolding v by (rule vocab_position)
    then obtain l where l: "l < length ?L" "j = int l" "fst (?L ! l) = d"
      by blast
    have "\<not> l \<le> k"
    proof
      assume "l \<le> k"
      from count_pairs_sorted [OF this k(1)] count [OF k(1)] count [OF l(1)] that(3)
      show False
        by (simp add: k l)
    qed
    then show ?thesis
      by (simp add: k l)
  qed
  have by_order: "i < j"
    if "map_of (vocab A) [fst x] = Some i" "map_of (vocab A) [fst y] = Some j"
      "subseq [x, y] (Counter text)" "snd x = snd y" for x y i j
  proof -
    from that(1) have "\<exists>k. k < length ?L \<and> i = int k \<and> fst (?L ! k) = fst x"
      unfolding v by (rule vocab_position)
    then obtain k where k: "k < length ?L" "i = int k" "fst (?L ! k) = fst x"
      by blast
    from that(2) have "\<exists>l. l < length ?L \<and> j = int l \<and> fst (?L ! l) = fst y"
      unfolding v by (rule vocab_position)
    then obtain l where l: "l < length ?L" "j = int l" "fst (?L ! l) = fst y"
      by blast
    have "subseq [x, y] ?L"
      using that(3,4) by (rule count_pairs_stable)
    then have "\<exists>k' l'. k' < l' \<and> l' < length ?L \<and> ?L ! k' = x \<and> ?L ! l' = y"
      by (rule subseq_pair_nth)
    then obtain k' l' where kl: "k' < l'" "l' < length ?L" "?L ! k' = x" "?L ! l' = y"
      by blast
    have "k = k'"
      using unique [of k k'] k kl by simp
    moreover have "l = l'"
      using unique [of l l'] l kl by simp
    ultimately show ?thesis
      using kl(1) by (simp add: k l)
  qed
  show ?thesis
  proof (intro exI [of _ A] conjI allI impI)
    show "CharacterAtomizer_from_text text = Inr A"
      by (rule A)
    show "fst ` set (vocab A) = (\<lambda>c. [c]) ` set text"
      by (rule keys)
    show "distinct (map fst (vocab A))"
      by (rule dist)
  next
    fix c d i j
    assume "map_of (vocab A) [c] = Some i \<and> map_of (vocab A) [d] = Some j \<and>
      count_list text d < count_list text c"
    then show "i < j"
      using by_count [of c i d j] by simp
  next
    fix x y i j
    assume "map_of (vocab A) [fst x] = Some i \<and> map_of (vocab A) [fst y] = Some j \<and>
      subseq [x, y] (Counter text) \<and> snd x = snd y"
    then show "i < j"
      using by_order [of x i y j] by simp
  qed
qed

text \<open>
  C8 fails on the code for the empty corpus: no vocabulary is built,
  \<^verbatim>\<open>CharacterAtomizer.from_text\<close> raises \<^verbatim>\<open>ValueError\<close>.
\<close>

theorem from_text_empty_corpus:
  "CharacterAtomizer_from_text ([] :: string) = Inl ValueError"
  by (simp add: CharacterAtomizer_from_text_def Counter_def)

end
